theory Spec2Isabelle
  imports Complex_Main "HOL-Library.Word" "HOL-Library.List_Lexorder" "HOL-Library.Sublist"
begin

section \<open>Strings of the source language\<close>

text \<open>
  A JavaScript string is a sequence of UTF-16 code units; \<open>length\<close>, \<open>trim\<close>,
  \<open>includes\<close>, the regular expression test and the default comparison of
  \<open>Array.prototype.sort\<close> all work on code units. String literals of the source are
  ASCII and are written through \<open>js\<close>.
\<close>

type_synonym jsstring = "16 word list"

definition js :: "string \<Rightarrow> jsstring" where
  "js s = map (\<lambda>c. of_nat (of_char c)) s"

text \<open>
  \<open>String.prototype.trim\<close> removes leading and trailing WhiteSpace and LineTerminator
  code points (ECMAScript 12.2 and 12.3): TAB, VT, FF, SP, NBSP, ZWNBSP, the category Zs,
  and LF, CR, LS, PS. All of them are single code units.
\<close>

definition isWhiteSpace :: "16 word \<Rightarrow> bool" where
  "isWhiteSpace c \<longleftrightarrow> c \<in> set [0x9, 0xA, 0xB, 0xC, 0xD, 0x20, 0xA0, 0x1680,
     0x2000, 0x2001, 0x2002, 0x2003, 0x2004, 0x2005, 0x2006, 0x2007, 0x2008, 0x2009, 0x200A,
     0x2028, 0x2029, 0x202F, 0x205F, 0x3000, 0xFEFF]"

definition trim :: "jsstring \<Rightarrow> jsstring" where
  "trim s = rev (dropWhile isWhiteSpace (rev (dropWhile isWhiteSpace s)))"

text \<open>\<open>s.includes(sub)\<close>: \<open>sub\<close> occurs in \<open>s\<close> as a contiguous run.\<close>

fun str_includes :: "jsstring \<Rightarrow> jsstring \<Rightarrow> bool" where
  "str_includes [] sub = (sub = [])"
| "str_includes (c # cs) sub = (prefix sub (c # cs) \<or> str_includes cs sub)"

text \<open>
  The test \<open>/\[5\d{2}\]/.test(s)\<close>: somewhere in \<open>s\<close> stands an opening bracket, the
  digit 5, two decimal digits and a closing bracket.
\<close>

definition isDigit :: "16 word \<Rightarrow> bool" where
  "isDigit c \<longleftrightarrow> 0x30 \<le> c \<and> c \<le> 0x39"

fun matches5xx :: "jsstring \<Rightarrow> bool" where
  "matches5xx (a # b # c # d # e # rest) =
     ((a = 0x5B \<and> b = 0x35 \<and> isDigit c \<and> isDigit d \<and> e = 0x5D)
      \<or> matches5xx (b # c # d # e # rest))"
| "matches5xx _ = False"

text \<open>
  \<open>String.prototype.toLowerCase\<close> follows the Unicode case mappings and is not
  reproduced here: every function that needs it takes it as the parameter \<open>lower\<close>.
  \<open>lowerAscii\<close> is its restriction to strings of ASCII characters, used to evaluate
  examples.
\<close>

definition lowerAscii :: "jsstring \<Rightarrow> jsstring" where
  "lowerAscii s = map (\<lambda>c. if 0x41 \<le> c \<and> c \<le> 0x5A then c + 0x20 else c) s"

section \<open>Data model (types.ts)\<close>

record TranslationPair =
  key :: jsstring
  en_text :: jsstring
  ar_text :: jsstring

record GeneratedFile =
  filename :: jsstring
  content :: jsstring

section \<open>Cross-page de-duplication (generateLocalizationFromPdfImages, lines 234-243)\<close>

text \<open>
  \<open>item.en_text.trim().toLowerCase() || item.ar_text.trim()\<close>: the empty string is the
  only falsy string, so the right operand is taken exactly when the left one is empty.
\<close>

definition uniqueKey :: "(jsstring \<Rightarrow> jsstring) \<Rightarrow> TranslationPair \<Rightarrow> jsstring" where
  "uniqueKey lower item =
     (let l = lower (trim (en_text item)) in if l \<noteq> [] then l else trim (ar_text item))"

text \<open>
  A \<open>Map\<close> is kept as the list of its entries in insertion order: \<open>set\<close> on a key that
  is present replaces the value in place, on a new key it appends the entry;
  \<open>values()\<close> iterates in that order.
\<close>

type_synonym ('k, 'v) jsmap = "('k \<times> 'v) list"

definition map_has :: "('k, 'v) jsmap \<Rightarrow> 'k \<Rightarrow> bool" where
  "map_has m k \<longleftrightarrow> k \<in> set (map fst m)"

fun map_set :: "('k, 'v) jsmap \<Rightarrow> 'k \<Rightarrow> 'v \<Rightarrow> ('k, 'v) jsmap" where
  "map_set [] k v = [(k, v)]"
| "map_set ((k', v') # m) k v = (if k' = k then (k, v) # m else (k', v') # map_set m k v)"

definition map_values :: "('k, 'v) jsmap \<Rightarrow> 'v list" where
  "map_values m = map snd m"

text \<open>The body of the \<open>forEach\<close> callback, and the loop with the final \<open>Array.from\<close>.\<close>

definition dedupStep ::
  "(jsstring \<Rightarrow> jsstring) \<Rightarrow> (jsstring, TranslationPair) jsmap \<Rightarrow> TranslationPair
     \<Rightarrow> (jsstring, TranslationPair) jsmap" where
  "dedupStep lower m item =
     (let k = uniqueKey lower item in
      if k \<noteq> [] \<and> \<not> map_has m k then map_set m k item else m)"

definition uniqueTranslations ::
  "(jsstring \<Rightarrow> jsstring) \<Rightarrow> TranslationPair list \<Rightarrow> TranslationPair list" where
  "uniqueTranslations lower allTranslations =
     map_values (foldl (dedupStep lower) [] allTranslations)"

text \<open>
  The consolidation as the specification words it: the identity of a record is its
  \<open>en_text\<close> trimmed and lowercased, or its \<open>ar_text\<close> trimmed when the trimmed
  \<open>en_text\<close> is empty, and the first record seen for each identity is kept, in encounter
  order.
\<close>

definition spec_identity :: "(jsstring \<Rightarrow> jsstring) \<Rightarrow> TranslationPair \<Rightarrow> jsstring" where
  "spec_identity lower item =
     (if trim (en_text item) = [] then trim (ar_text item) else lower (trim (en_text item)))"

fun firstPerIdentity :: "('a \<Rightarrow> 'k) \<Rightarrow> 'k list \<Rightarrow> 'a list \<Rightarrow> 'a list" where
  "firstPerIdentity f seen [] = []"
| "firstPerIdentity f seen (x # xs) =
     (if f x \<in> set seen then firstPerIdentity f seen xs
      else x # firstPerIdentity f (f x # seen) xs)"

definition spec_consolidate ::
  "(jsstring \<Rightarrow> jsstring) \<Rightarrow> TranslationPair list \<Rightarrow> TranslationPair list" where
  "spec_consolidate lower xs = firstPerIdentity (spec_identity lower) [] xs"

section \<open>The collaborators of one run\<close>

text \<open>
  A value thrown by a collaborator is an \<open>Error\<close> instance carrying a message, or some
  other value; the source tells them apart with \<open>e instanceof Error\<close>.
\<close>

datatype thrown = ErrorObj jsstring | NonError

text \<open>
  One request to the generative service: \<open>generateContent\<close> rejects, or it resolves and
  \<open>response.text.trim()\<close> or \<open>JSON.parse\<close> throws, or the parse gives the records.
\<close>

datatype reply = CallFails thrown | ParseFails thrown | Parsed "TranslationPair list"

text \<open>
  A page of the document as pdf.js hands it out: the \<open>str\<close> of each text item
  (or the rejection of \<open>getPage\<close>/\<open>getTextContent\<close>), and the data URL the canvas
  gives after rendering (or the rejection of \<open>getPage\<close>/\<open>render\<close>).
\<close>

record page =
  textItems :: "thrown + jsstring list"
  renderResult :: "thrown + jsstring"

record env =
  pdfjsLoaded :: bool
  document :: "thrown + page list"
  aiClient :: "thrown option"
  context2d :: bool
  textService :: "jsstring list \<Rightarrow> reply"
  ocrService :: "nat \<Rightarrow> jsstring \<Rightarrow> reply"

text \<open>
  \<open>pdfjsLoaded\<close>: \<open>window.pdfjsLib\<close> is defined. \<open>document\<close>: the pages, or the rejection
  of \<open>file.arrayBuffer()\<close>/\<open>getDocument\<close>. \<open>aiClient\<close>: what \<open>new GoogleGenAI\<close> throws,
  if it throws. \<open>context2d\<close>: \<open>canvas.getContext('2d')\<close> is not null. \<open>textService\<close>:
  the reply to the request for a list of texts. \<open>ocrService\<close>: the reply to the request
  for the page image of a given index.
\<close>

text \<open>
  Built-in functions of the language that the model takes as parameters.
  \<open>toLowerCase\<close> is \<open>String.prototype.toLowerCase\<close>. \<open>toDouble\<close> rounds the exact
  result of an arithmetic operation to the nearest IEEE double, so that \<open>a / b\<close> on
  Numbers is \<open>toDouble (a / b)\<close>. \<open>jsonOfAssignments\<close> is \<open>JSON.stringify(o, null, 2)\<close>
  for the object \<open>o\<close> obtained from \<open>{}\<close> by the assignments \<open>o[k] = v\<close> in the given
  order.
\<close>

record builtins =
  toLowerCase :: "jsstring \<Rightarrow> jsstring"
  toDouble :: "rat \<Rightarrow> rat"
  jsonOfAssignments :: "(jsstring \<times> jsstring) list \<Rightarrow> jsstring"

text \<open>
  Rounding to the nearest double never reverses the order of two values and leaves
  the integers up to 100 as they are; the properties of the percentages below rest on
  these two facts only.
\<close>

definition doubleRounding :: "(rat \<Rightarrow> rat) \<Rightarrow> bool" where
  "doubleRounding dbl \<longleftrightarrow>
     (\<forall>x y. x \<le> y \<longrightarrow> dbl x \<le> dbl y) \<and> (\<forall>k::nat. k \<le> 100 \<longrightarrow> dbl (of_nat k) = of_nat k)"

text \<open>The errors a run ends with, named after the message each one carries.\<close>

datatype failure =
    Rejected thrown
  | PdfJsNotLoadedCheckIndex
  | PdfJsNotLoaded
  | NoCanvasContext
  | ApiCallFailed
  | UnknownTranslationError
  | InvalidAiResponse
  | NoImagesForOcr
  | NoLocalizableText

text \<open>
  \<open>Rejected\<close>: a value thrown by a collaborator and not caught.
  \<open>PdfJsNotLoadedCheckIndex\<close>: "pdf.js library is not loaded. Please check index.html."
  \<open>PdfJsNotLoaded\<close>: "pdf.js library is not loaded."
  \<open>NoCanvasContext\<close>: "Could not create canvas context for rendering PDF."
  \<open>ApiCallFailed\<close>: "API call failed. Check your API key and billing status. This may
  also be a temporary Google Cloud issue."
  \<open>UnknownTranslationError\<close>: "An unknown error occurred while generating translations."
  \<open>InvalidAiResponse\<close>: "The AI returned an invalid response. Please try again."
  \<open>NoImagesForOcr\<close>: "Could not convert PDF to images for OCR processing."
  \<open>NoLocalizableText\<close>: "No localizable text was found in the PDF. The file might be
  empty or contain only images with no recognizable text."
\<close>

text \<open>The messages given to \<open>onProgress\<close>, by template.\<close>

datatype message =
    ExtractingText
  | GeneratingKeys
  | StartingOcr
  | ConvertingPage nat nat
  | ProcessingOcr nat nat
  | Consolidating
  | ConstructingFiles

text \<open>
  The effects of a run, in the order they happen: calls of \<open>onProgress\<close> with message
  and percentage, \<open>document.createElement('canvas')\<close>, \<open>canvas.remove()\<close>, and the
  requests sent to the generative service (for the texts, or for the page of an index).
  A function with effects returns its events and then its error or value.
\<close>

datatype event =
    Progress message int
  | CanvasCreated
  | CanvasRemoved
  | TextRequest "jsstring list"
  | OcrRequest nat

type_synonym 'a run = "event list \<times> (failure + 'a)"

section \<open>extractTextFromPdf\<close>

text \<open>
  A \<open>Set\<close> is kept as the list of its members in insertion order; \<open>add\<close> of a member
  changes nothing.
\<close>

definition set_add :: "'a list \<Rightarrow> 'a \<Rightarrow> 'a list" where
  "set_add s x = (if x \<in> set s then s else s @ [x])"

definition addText :: "jsstring list \<Rightarrow> jsstring \<Rightarrow> jsstring list" where
  "addText uniqueTexts str =
     (let trimmedText = trim str in
      if length trimmedText > 1 then set_add uniqueTexts trimmedText else uniqueTexts)"

fun extractPages :: "page list \<Rightarrow> jsstring list \<Rightarrow> failure + jsstring list" where
  "extractPages [] uniqueTexts = Inr uniqueTexts"
| "extractPages (p # ps) uniqueTexts =
     (case textItems p of
        Inl t \<Rightarrow> Inl (Rejected t)
      | Inr items \<Rightarrow> extractPages ps (foldl addText uniqueTexts items))"

definition extractTextFromPdf :: "env \<Rightarrow> failure + jsstring list" where
  "extractTextFromPdf E =
     (if \<not> pdfjsLoaded E then Inl PdfJsNotLoadedCheckIndex
      else case document E of
             Inl t \<Rightarrow> Inl (Rejected t)
           | Inr pages \<Rightarrow> extractPages pages [])"

section \<open>generateKeysAndTranslations\<close>

text \<open>The condition of the \<open>catch\<close> at line 98.\<close>

definition textCritical :: "thrown \<Rightarrow> bool" where
  "textCritical e =
     (case e of
        ErrorObj m \<Rightarrow> str_includes m (js ''Rpc failed'') \<or> matches5xx m
      | NonError \<Rightarrow> False)"

definition generateKeysAndTranslations :: "env \<Rightarrow> jsstring list \<Rightarrow> TranslationPair list run" where
  "generateKeysAndTranslations E texts =
     (case aiClient E of
        Some t \<Rightarrow> ([], Inl (Rejected t))
      | None \<Rightarrow>
          ([TextRequest texts],
           case textService E texts of
             CallFails e \<Rightarrow> Inl (if textCritical e then ApiCallFailed else UnknownTranslationError)
           | ParseFails e \<Rightarrow> Inl InvalidAiResponse
           | Parsed pairs \<Rightarrow> Inr pairs))"

section \<open>convertPdfPagesToImageParts\<close>

record imagePart =
  data :: jsstring
  mimeType :: jsstring

text \<open>\<open>Math.round\<close>: the nearest integer, a tie going up.\<close>

definition mathRound :: "rat \<Rightarrow> int" where
  "mathRound x = \<lfloor>x + 1 / 2\<rfloor>"

text \<open>\<open>Math.round((i / pdf.numPages) * 30)\<close>\<close>

definition pagePercent :: "(rat \<Rightarrow> rat) \<Rightarrow> nat \<Rightarrow> nat \<Rightarrow> int" where
  "pagePercent dbl i numPages = mathRound (dbl (dbl (of_nat i / of_nat numPages) * 30))"

text \<open>
  \<open>dataUrl.split(',')[1]\<close>: the text between the first comma and the next one;
  \<open>undefined\<close> (here \<open>None\<close>) when there is no comma.
\<close>

definition splitComma1 :: "jsstring \<Rightarrow> jsstring option" where
  "splitComma1 s =
     (case dropWhile (\<lambda>c. c \<noteq> 0x2C) s of
        [] \<Rightarrow> None
      | _ # rest \<Rightarrow> Some (takeWhile (\<lambda>c. c \<noteq> 0x2C) rest))"

text \<open>\<open>if (base64Data) imageParts.push(...)\<close>: \<open>undefined\<close> and the empty string are falsy.\<close>

definition pushPart :: "imagePart list \<Rightarrow> jsstring \<Rightarrow> imagePart list" where
  "pushPart imageParts dataUrl =
     (case splitComma1 dataUrl of
        None \<Rightarrow> imageParts
      | Some base64Data \<Rightarrow>
          if base64Data \<noteq> [] then imageParts @ [\<lparr>data = base64Data, mimeType = js ''image/jpeg''\<rparr>]
          else imageParts)"

text \<open>The loop of lines 125-139, from page \<open>i\<close> on, over the pages that remain.\<close>

fun renderPages ::
  "(rat \<Rightarrow> rat) \<Rightarrow> nat \<Rightarrow> nat \<Rightarrow> page list \<Rightarrow> imagePart list \<Rightarrow> imagePart list run" where
  "renderPages dbl numPages i [] imageParts = ([], Inr imageParts)"
| "renderPages dbl numPages i (p # ps) imageParts =
     (case renderResult p of
        Inl t \<Rightarrow> ([Progress (ConvertingPage i numPages) (pagePercent dbl i numPages)],
                  Inl (Rejected t))
      | Inr dataUrl \<Rightarrow>
          (case renderPages dbl numPages (Suc i) ps (pushPart imageParts dataUrl) of
             (evs, r) \<Rightarrow>
               (Progress (ConvertingPage i numPages) (pagePercent dbl i numPages) # evs, r)))"

definition convertPdfPagesToImageParts :: "(rat \<Rightarrow> rat) \<Rightarrow> env \<Rightarrow> imagePart list run" where
  "convertPdfPagesToImageParts dbl E =
     (if \<not> pdfjsLoaded E then ([], Inl PdfJsNotLoaded)
      else case document E of
             Inl t \<Rightarrow> ([], Inl (Rejected t))
           | Inr pages \<Rightarrow>
               if \<not> context2d E then ([CanvasCreated], Inl NoCanvasContext)
               else (case renderPages dbl (length pages) 1 pages [] of
                       (evs, Inl f) \<Rightarrow> (CanvasCreated # evs, Inl f)
                     | (evs, Inr imageParts) \<Rightarrow>
                         (CanvasCreated # evs @ [CanvasRemoved], Inr imageParts)))"

section \<open>generateLocalizationFromPdfImages\<close>

text \<open>The condition of the \<open>catch\<close> at line 194.\<close>

definition ocrCritical :: "thrown \<Rightarrow> bool" where
  "ocrCritical e =
     (case e of
        ErrorObj m \<Rightarrow>
          str_includes m (js ''Rpc failed'') \<or> matches5xx m \<or> str_includes m (js ''API key'')
      | NonError \<Rightarrow> False)"

text \<open>
  \<open>processPage\<close>: the request and the parse stand in one \<open>try\<close>, so whatever either
  throws reaches the same \<open>catch\<close>.
\<close>

definition processPage :: "env \<Rightarrow> imagePart \<Rightarrow> nat \<Rightarrow> failure + TranslationPair list" where
  "processPage E imagePart index =
     (case ocrService E index (data imagePart) of
        Parsed pairs \<Rightarrow> Inr pairs
      | CallFails e \<Rightarrow> if ocrCritical e then Inl ApiCallFailed else Inr []
      | ParseFails e \<Rightarrow> if ocrCritical e then Inl ApiCallFailed else Inr [])"

text \<open>
  \<open>Promise.all\<close>: the results in the order of the promises, or a rejection when one
  of them rejects. Every rejection of \<open>processPage\<close> is the same error, so which one
  comes first in time does not show.
\<close>

fun promiseAll :: "(failure + 'a) list \<Rightarrow> failure + 'a list" where
  "promiseAll [] = Inr []"
| "promiseAll (Inl f # rs) = Inl f"
| "promiseAll (Inr x # rs) = (case promiseAll rs of Inl f \<Rightarrow> Inl f | Inr xs \<Rightarrow> Inr (x # xs))"

text \<open>\<open>Math.round(30 + (batchStartIndex / imageParts.length) * 60)\<close>\<close>

definition ocrPercent :: "(rat \<Rightarrow> rat) \<Rightarrow> nat \<Rightarrow> nat \<Rightarrow> int" where
  "ocrPercent dbl batchStartIndex n =
     mathRound (dbl (30 + dbl (dbl (of_nat batchStartIndex / of_nat n) * 60)))"

text \<open>
  The pages of a batch with their indices: \<open>batch.map((part, indexInBatch) => ...)\<close>
  with \<open>batchStartIndex + indexInBatch\<close>.
\<close>

definition batchResults :: "env \<Rightarrow> imagePart list \<Rightarrow> nat \<Rightarrow> (failure + TranslationPair list) list" where
  "batchResults E batch batchStartIndex =
     map (\<lambda>(part, indexInBatch). processPage E part (batchStartIndex + indexInBatch))
       (zip batch [0 ..< length batch])"

definition batchEvents :: "(rat \<Rightarrow> rat) \<Rightarrow> imagePart list \<Rightarrow> nat \<Rightarrow> event list" where
  "batchEvents dbl imageParts i =
     Progress (ProcessingOcr (i + 1) (min (i + 5) (length imageParts)))
       (ocrPercent dbl i (length imageParts))
     # map OcrRequest [i ..< i + length (take 5 (drop i imageParts))]"

text \<open>The loop of lines 209-230 from index \<open>i\<close> on; \<open>slice(i, i + 5)\<close> is \<open>take 5 (drop i _)\<close>.\<close>

function ocrBatches ::
  "(rat \<Rightarrow> rat) \<Rightarrow> env \<Rightarrow> imagePart list \<Rightarrow> nat \<Rightarrow> TranslationPair list
     \<Rightarrow> TranslationPair list run" where
  "ocrBatches dbl E imageParts i allTranslations =
     (if i < length imageParts then
        (case promiseAll (batchResults E (take 5 (drop i imageParts)) i) of
           Inl f \<Rightarrow> (batchEvents dbl imageParts i, Inl f)
         | Inr results \<Rightarrow>
             (case ocrBatches dbl E imageParts (i + 5) (allTranslations @ concat results) of
                (evs, r) \<Rightarrow> (batchEvents dbl imageParts i @ evs, r)))
      else ([], Inr allTranslations))"
  by pat_completeness auto
termination
  by (relation "measure (\<lambda>(dbl, E, imageParts, i, allTranslations). length imageParts - i)") auto

declare ocrBatches.simps [simp del]

definition generateLocalizationFromPdfImages :: "builtins \<Rightarrow> env \<Rightarrow> TranslationPair list run" where
  "generateLocalizationFromPdfImages B E =
     (case convertPdfPagesToImageParts (toDouble B) E of
        (evs, Inl f) \<Rightarrow> (evs, Inl f)
      | (evs, Inr imageParts) \<Rightarrow>
          if length imageParts = 0 then (evs, Inl NoImagesForOcr)
          else (case aiClient E of
                  Some t \<Rightarrow> (evs, Inl (Rejected t))
                | None \<Rightarrow>
                    (case ocrBatches (toDouble B) E imageParts 0 [] of
                       (evs', Inl f) \<Rightarrow> (evs @ evs', Inl f)
                     | (evs', Inr allTranslations) \<Rightarrow>
                         (evs @ evs' @ [Progress Consolidating 90],
                          Inr (uniqueTranslations (toLowerCase B) allTranslations)))))"

section \<open>generateFlutterFiles\<close>

text \<open>
  \<open>Array.from(allKeys).sort()\<close>: the members of the \<open>Set\<close> of keys, sorted by the
  default comparison, which orders strings by their code units.
\<close>

definition sortedKeys :: "TranslationPair list \<Rightarrow> jsstring list" where
  "sortedKeys dat = sort (foldl set_add [] (map key dat))"

fun join :: "jsstring \<Rightarrow> jsstring list \<Rightarrow> jsstring" where
  "join sep [] = []"
| "join sep [x] = x"
| "join sep (x # y # ys) = x @ sep @ join sep (y # ys)"

text \<open>One line of the class body; \<open>0x27\<close> is the single quote.\<close>

definition keyLine :: "jsstring \<Rightarrow> jsstring" where
  "keyLine k = js ''  static const '' @ k @ js '' = '' @ [0x27] @ k @ [0x27] @ js '';''"

definition localeKeysContent :: "TranslationPair list \<Rightarrow> jsstring" where
  "localeKeysContent dat =
     js ''// DO NOT EDIT. This is code generated via package:easy_localization/generate.dart''
     @ [0xA, 0xA] @ js ''abstract class  LocaleKeys {'' @ [0xA]
     @ join [0xA] (map keyLine (sortedKeys dat))
     @ [0xA, 0xA] @ js ''}'' @ [0xA]"

definition codegenLoaderContent :: "jsstring \<Rightarrow> jsstring \<Rightarrow> jsstring" where
  \<open>codegenLoaderContent arMapString enMapString = join [0xA]
     [js ''// DO NOT EDIT. This is code generated via package:easy_localization/generate.dart'',
      [],
      js ''// ignore_for_file: prefer_single_quotes, avoid_renaming_method_parameters, constant_identifier_names'',
      [],
      js ''import 'dart:ui';'',
      [],
      js ''import 'package:easy_localization/easy_localization.dart' show AssetLoader;'',
      [],
      js ''class CodegenLoader extends AssetLoader{'',
      js ''  const CodegenLoader();'',
      [],
      js ''  @override'',
      js ''  Future<Map<String, dynamic>?> load(String path, Locale locale) {'',
      js ''    return Future.value(mapLocales[locale.toString()]);'',
      js ''  }'',
      [],
      js ''  static const Map<String,dynamic> _ar = '' @ arMapString @ js '';'',
      js ''  static const Map<String,dynamic> _en = '' @ enMapString @ js '';'',
      js ''  static const Map<String, Map<String,dynamic>> mapLocales = {"ar": _ar, "en": _en};'',
      js ''}'',
      []]\<close>

definition generateFlutterFiles ::
  "((jsstring \<times> jsstring) list \<Rightarrow> jsstring) \<Rightarrow> TranslationPair list \<Rightarrow> GeneratedFile list" where
  "generateFlutterFiles stringify dat =
     (let arMapString = stringify (map (\<lambda>item. (key item, ar_text item)) dat);
          enMapString = stringify (map (\<lambda>item. (key item, en_text item)) dat)
      in [\<lparr>filename = js ''ar.json'', content = arMapString\<rparr>,
          \<lparr>filename = js ''en.json'', content = enMapString\<rparr>,
          \<lparr>filename = js ''locale_keys.g.dart'', content = localeKeysContent dat\<rparr>,
          \<lparr>filename = js ''codegen_loader.dart'',
           content = codegenLoaderContent arMapString enMapString\<rparr>])"

section \<open>processPdfForLocalization\<close>

text \<open>Lines 298-309: the value of \<open>localizationData\<close> when line 311 is reached.\<close>

definition localizationData :: "builtins \<Rightarrow> env \<Rightarrow> TranslationPair list run" where
  "localizationData B E =
     (case extractTextFromPdf E of
        Inl f \<Rightarrow> ([Progress ExtractingText 5], Inl f)
      | Inr texts \<Rightarrow>
          if length texts > 5 then
            (case generateKeysAndTranslations E texts of
               (evs, r) \<Rightarrow> (Progress ExtractingText 5 # Progress GeneratingKeys 50 # evs, r))
          else
            (case generateLocalizationFromPdfImages B E of
               (evs, r) \<Rightarrow> (Progress ExtractingText 5 # Progress StartingOcr 10 # evs, r)))"

definition processPdfForLocalization :: "builtins \<Rightarrow> env \<Rightarrow> GeneratedFile list run" where
  "processPdfForLocalization B E =
     (case localizationData B E of
        (evs, Inl f) \<Rightarrow> (evs, Inl f)
      | (evs, Inr dat) \<Rightarrow>
          if length dat = 0 then (evs, Inl NoLocalizableText)
          else (evs @ [Progress ConstructingFiles 95],
                Inr (generateFlutterFiles (jsonOfAssignments B) dat)))"

section \<open>Reading the events of a run\<close>

text \<open>
  Events that only the direct-translation branch (lines 304-305) produces, and events
  that only the OCR branch (lines 307-308) produces.
\<close>

fun directPathEvent :: "event \<Rightarrow> bool" where
  "directPathEvent (TextRequest texts) = True"
| "directPathEvent (Progress GeneratingKeys p) = True"
| "directPathEvent _ = False"

fun ocrPathEvent :: "event \<Rightarrow> bool" where
  "ocrPathEvent (Progress StartingOcr p) = True"
| "ocrPathEvent (Progress (ConvertingPage i n) p) = True"
| "ocrPathEvent (Progress (ProcessingOcr a b) p) = True"
| "ocrPathEvent (Progress Consolidating p) = True"
| "ocrPathEvent CanvasCreated = True"
| "ocrPathEvent CanvasRemoved = True"
| "ocrPathEvent (OcrRequest k) = True"
| "ocrPathEvent _ = False"

text \<open>
  The records that the page of index \<open>k\<close> adds to \<open>allTranslations\<close>: what
  \<open>processPage\<close> resolves to for it.
\<close>

definition pageRecords :: "env \<Rightarrow> imagePart list \<Rightarrow> nat \<Rightarrow> TranslationPair list" where
  "pageRecords E imageParts k =
     (case processPage E (imageParts ! k) k of Inr pairs \<Rightarrow> pairs | Inl f \<Rightarrow> [])"

text \<open>The percentages a run reports, in order.\<close>

fun percentages :: "event list \<Rightarrow> int list" where
  "percentages [] = []"
| "percentages (Progress m p # evs) = p # percentages evs"
| "percentages (_ # evs) = percentages evs"

section \<open>Sample inputs\<close>

text \<open>
  Concrete values for the parameters, on which the functions above are evaluated below.
  \<open>sampleBuiltins\<close> lowercases ASCII letters, computes exactly (the samples only divide
  by powers of two, where double arithmetic is exact) and prints one assignment per
  line in place of the JSON text, which no property below reads.
\<close>

definition sampleBuiltins :: builtins where
  "sampleBuiltins =
     \<lparr>toLowerCase = lowerAscii,
      toDouble = (\<lambda>x. x),
      jsonOfAssignments = (\<lambda>kvs. concat (map (\<lambda>(k, v). k @ js ''='' @ v @ [0xA]) kvs))\<rparr>"

text \<open>The Arabic word for "send", as code units.\<close>

definition arSend :: jsstring where
  "arSend = [0x625, 0x631, 0x633, 0x627, 0x644]"

definition recSubmit :: TranslationPair where
  "recSubmit = \<lparr>key = js ''submit'', en_text = js ''Submit'', ar_text = arSend\<rparr>"

definition recSubmitUpper :: TranslationPair where
  "recSubmitUpper = \<lparr>key = js ''submit_button'', en_text = js '' SUBMIT '', ar_text = arSend\<rparr>"

definition recCancel :: TranslationPair where
  "recCancel = \<lparr>key = js ''cancel'', en_text = js ''Cancel'', ar_text = []\<rparr>"

definition recArabicOnly :: TranslationPair where
  "recArabicOnly = \<lparr>key = js ''send'', en_text = js '' '', ar_text = arSend @ js '' ''\<rparr>"

definition recBlank :: TranslationPair where
  "recBlank = \<lparr>key = js ''blank'', en_text = js ''  '', ar_text = js '' ''\<rparr>"

definition sampleRecords :: "TranslationPair list" where
  "sampleRecords = [recSubmit, recBlank, recCancel, recSubmitUpper, recArabicOnly, recCancel]"

text \<open>
  A page whose rendering gives a JPEG data URL, with the given text items; a document of
  \<open>n\<close> pages without a text layer, with the reply of the service for each page index;
  and a one-page document with a text layer, with the reply to the text request (a
  request for its page image is answered with the record for "Cancel").
\<close>

definition samplePage :: "jsstring list \<Rightarrow> page" where
  "samplePage items =
     \<lparr>textItems = Inr items, renderResult = Inr (js ''data:image/jpeg;base64,QUJD'')\<rparr>"

definition scannedPdf :: "nat \<Rightarrow> (nat \<Rightarrow> reply) \<Rightarrow> env" where
  "scannedPdf n ocr =
     \<lparr>pdfjsLoaded = True, document = Inr (replicate n (samplePage [])), aiClient = None,
      context2d = True, textService = (\<lambda>texts. Parsed []), ocrService = (\<lambda>i image. ocr i)\<rparr>"

definition textPdf :: "jsstring list \<Rightarrow> reply \<Rightarrow> env" where
  "textPdf items r =
     \<lparr>pdfjsLoaded = True, document = Inr [samplePage items], aiClient = None,
      context2d = True, textService = (\<lambda>texts. r),
      ocrService = (\<lambda>i image. Parsed [recCancel])\<rparr>"

definition sixTexts :: "jsstring list" where
  "sixTexts = [js ''Hello'', js '' Hello '', js ''Submit'', js ''x'', js ''Cancel'', js ''Save'',
               js ''Open'', js ''Close'']"

definition fiveTexts :: "jsstring list" where
  "fiveTexts = [js ''Hello'', js '' Hello '', js ''Submit'', js ''x'', js ''Cancel'', js ''Save'',
                js ''Open'']"

text \<open>A one-page document without a text layer whose page fails to render.\<close>

definition brokenRenderPdf :: env where
  "brokenRenderPdf =
     \<lparr>pdfjsLoaded = True,
      document = Inr [\<lparr>textItems = Inr [], renderResult = Inl (ErrorObj (js ''render failed''))\<rparr>],
      aiClient = None, context2d = True,
      textService = (\<lambda>texts. Parsed []), ocrService = (\<lambda>i image. Parsed [])\<rparr>"

text \<open>
  Replies of the service: the same record for every page; a failure with API-key
  wording, for a text request and on the seventh page only; a failure that carries a
  503 status; a failure with none of the wordings; and pages with different records,
  where the sixth page fails with none of the wordings.
\<close>

definition submitOnEveryPage :: "nat \<Rightarrow> reply" where
  "submitOnEveryPage i = Parsed [recSubmit]"

definition apiKeyFailure :: reply where
  "apiKeyFailure = CallFails (ErrorObj (js ''API key not valid. Please pass a valid API key.''))"

definition timeoutFailure :: reply where
  "timeoutFailure = CallFails (ErrorObj (js ''timeout''))"

definition apiKeyFailureOnPage7 :: "nat \<Rightarrow> reply" where
  "apiKeyFailureOnPage7 i = (if i = 6 then apiKeyFailure else Parsed [recSubmit])"

definition mixedPages :: "nat \<Rightarrow> reply" where
  "mixedPages i =
     (if i = 1 then Parsed [recCancel, recBlank]
      else if i = 5 then timeoutFailure
      else if i = 6 then Parsed [recSubmitUpper, recArabicOnly]
      else if i = 7 then Parsed [recSubmit]
      else Parsed [])"

definition unavailable503 :: reply where
  "unavailable503 = CallFails (ErrorObj (js ''got status: [503] Service Unavailable''))"

section \<open>Evaluating the samples\<close>

lemmas sample_defs = sampleBuiltins_def recSubmit_def recSubmitUpper_def recCancel_def
  recArabicOnly_def recBlank_def sampleRecords_def arSend_def js_def lowerAscii_def
  trim_def isWhiteSpace_def samplePage_def scannedPdf_def textPdf_def sixTexts_def fiveTexts_def
  brokenRenderPdf_def submitOnEveryPage_def apiKeyFailureOnPage7_def unavailable503_def
  apiKeyFailure_def timeoutFailure_def mixedPages_def

lemmas dedup_defs = uniqueTranslations_def dedupStep_def uniqueKey_def map_has_def
  map_values_def Let_def

section \<open>Properties of the consolidation\<close>

lemma map_set_fresh: "\<not> map_has m k \<Longrightarrow> map_set m k v = m @ [(k, v)]"
  by (induction m) (auto simp: map_has_def)

lemma firstPerIdentity_seen_cong:
  "set s = set s' \<Longrightarrow> firstPerIdentity f s xs = firstPerIdentity f s' xs"
proof (induction xs arbitrary: s s')
  case Nil
  then show ?case by simp
next
  case (Cons x xs)
  have "firstPerIdentity f (f x # s) xs = firstPerIdentity f (f x # s') xs"
    using Cons.prems by (intro Cons.IH) simp
  moreover have "firstPerIdentity f s xs = firstPerIdentity f s' xs"
    using Cons.prems by (rule Cons.IH)
  ultimately show ?case using Cons.prems by simp
qed

lemma foldl_dedupStep:
  "map_values (foldl (dedupStep lower) m xs) =
     map_values m @ firstPerIdentity (uniqueKey lower) (map fst m)
                      (filter (\<lambda>r. uniqueKey lower r \<noteq> []) xs)"
proof (induction xs arbitrary: m)
  case Nil
  then show ?case by simp
next
  case (Cons x xs)
  let ?k = "uniqueKey lower x"
  show ?case
  proof (cases "?k \<noteq> [] \<and> \<not> map_has m ?k")
    case True
    then have step: "dedupStep lower m x = m @ [(?k, x)]"
      by (simp add: dedupStep_def map_set_fresh)
    have "firstPerIdentity (uniqueKey lower) (map fst (m @ [(?k, x)])) ys =
          firstPerIdentity (uniqueKey lower) (?k # map fst m) ys" for ys
      by (rule firstPerIdentity_seen_cong) auto
    with True step Cons.IH [of "m @ [(?k, x)]"] show ?thesis
      by (simp add: map_values_def map_has_def)
  next
    case False
    then have step: "dedupStep lower m x = m"
      by (auto simp: dedupStep_def)
    from False step Cons.IH [of m] show ?thesis
      by (auto simp: map_has_def)
  qed
qed

lemma uniqueTranslations_eq:
  "uniqueTranslations lower xs =
     firstPerIdentity (uniqueKey lower) [] (filter (\<lambda>r. uniqueKey lower r \<noteq> []) xs)"
  using foldl_dedupStep [of lower "[]" xs] by (simp add: uniqueTranslations_def map_values_def)

lemma firstPerIdentity_subset: "set (firstPerIdentity f s xs) \<subseteq> set xs"
  by (induction xs arbitrary: s) auto

lemma firstPerIdentity_distinct:
  "distinct (map f (firstPerIdentity f s xs)) \<and> f ` set (firstPerIdentity f s xs) \<inter> set s = {}"
proof (induction xs arbitrary: s)
  case Nil
  then show ?case by simp
next
  case (Cons x xs)
  from Cons.IH [of s] Cons.IH [of "f x # s"] show ?case by auto
qed

lemma firstPerIdentity_id:
  "distinct (map f xs) \<Longrightarrow> f ` set xs \<inter> set s = {} \<Longrightarrow> firstPerIdentity f s xs = xs"
  by (induction xs arbitrary: s) auto

lemma uniqueTranslations_keys_nonempty:
  "r \<in> set (uniqueTranslations lower xs) \<Longrightarrow> uniqueKey lower r \<noteq> []"
  using firstPerIdentity_subset [of "uniqueKey lower" "[]" "filter (\<lambda>r. uniqueKey lower r \<noteq> []) xs"]
  by (auto simp: uniqueTranslations_eq)

lemma uniqueTranslations_distinct:
  "distinct (map (uniqueKey lower) (uniqueTranslations lower xs))"
  using firstPerIdentity_distinct [of "uniqueKey lower" "[]"]
  by (simp add: uniqueTranslations_eq)

lemma uniqueTranslations_fixed:
  assumes "distinct (map (uniqueKey lower) ys)" and "\<forall>r \<in> set ys. uniqueKey lower r \<noteq> []"
  shows "uniqueTranslations lower ys = ys"
proof -
  have "filter (\<lambda>r. uniqueKey lower r \<noteq> []) ys = ys"
    using assms(2) by (simp add: filter_id_conv)
  with assms(1) show ?thesis
    by (simp add: uniqueTranslations_eq firstPerIdentity_id)
qed

lemma uniqueKey_spec_identity:
  assumes "\<forall>s. (lower s = []) = (s = [])"
  shows "uniqueKey lower = spec_identity lower"
  using assms by (auto simp: fun_eq_iff uniqueKey_def spec_identity_def Let_def)

section \<open>Properties of the reported percentages\<close>

lemma percentages_append: "percentages (a @ b) = percentages a @ percentages b"
  by (induction a rule: percentages.induct) auto

lemma percentages_OcrRequest: "percentages (map OcrRequest ks) = []"
  by (induction ks) auto

lemma doubleRounding_mono: "doubleRounding dbl \<Longrightarrow> x \<le> y \<Longrightarrow> dbl x \<le> dbl y"
  by (simp add: doubleRounding_def)

lemma doubleRounding_fix:
  assumes "doubleRounding dbl"
  shows "dbl 0 = 0" "dbl 1 = 1" "dbl 30 = 30" "dbl 60 = 60" "dbl 90 = 90"
proof -
  have f: "dbl (of_nat k) = of_nat k" if "k \<le> 100" for k :: nat
    using assms that by (simp add: doubleRounding_def)
  show "dbl 0 = 0" using f [of 0] by simp
  show "dbl 1 = 1" using f [of 1] by simp
  show "dbl 30 = 30" using f [of 30] by simp
  show "dbl 60 = 60" using f [of 60] by simp
  show "dbl 90 = 90" using f [of 90] by simp
qed

lemma mathRound_mono: "x \<le> y \<Longrightarrow> mathRound x \<le> mathRound y"
  by (simp add: mathRound_def floor_mono)

lemma mathRound_int: "mathRound (of_int k) = k"
  by (simp add: mathRound_def) linarith

lemma ratio_bounds:
  fixes i n :: nat
  assumes "i \<le> n"
  shows "0 \<le> (of_nat i / of_nat n :: rat)" "(of_nat i / of_nat n :: rat) \<le> 1"
proof -
  show "0 \<le> (of_nat i / of_nat n :: rat)" by simp
  show "(of_nat i / of_nat n :: rat) \<le> 1"
  proof (cases "n = 0")
    case True
    then show ?thesis by simp
  next
    case False
    with assms show ?thesis by (simp add: divide_le_eq_1)
  qed
qed

lemma scaled_bounds:
  assumes d: "doubleRounding dbl" and "i \<le> n" and c: "dbl c = c" "0 \<le> c"
  shows "0 \<le> dbl (dbl (of_nat i / of_nat n) * c)" "dbl (dbl (of_nat i / of_nat n) * c) \<le> c"
proof -
  let ?q = "dbl (of_nat i / of_nat n)"
  have q0: "0 \<le> ?q"
    using doubleRounding_mono [OF d ratio_bounds(1) [OF assms(2)]] doubleRounding_fix(1) [OF d]
    by simp
  have q1: "?q \<le> 1"
    using doubleRounding_mono [OF d ratio_bounds(2) [OF assms(2)]] doubleRounding_fix(2) [OF d]
    by simp
  have "0 \<le> ?q * c" using q0 c(2) by simp
  from doubleRounding_mono [OF d this] show "0 \<le> dbl (?q * c)"
    by (simp add: doubleRounding_fix(1) [OF d])
  have "?q * c \<le> c" using mult_right_mono [OF q1 c(2)] by simp
  from doubleRounding_mono [OF d this] show "dbl (?q * c) \<le> c"
    by (simp add: c(1))
qed

lemma scaled_mono:
  assumes d: "doubleRounding dbl" and "i \<le> j" and "0 \<le> c"
  shows "dbl (dbl (of_nat i / of_nat n) * c) \<le> dbl (dbl (of_nat j / of_nat n) * c)"
proof -
  have "(of_nat i / of_nat n :: rat) \<le> of_nat j / of_nat n"
    using assms(2) by (simp add: divide_right_mono)
  from doubleRounding_mono [OF d this] assms(3)
  have "dbl (of_nat i / of_nat n) * c \<le> dbl (of_nat j / of_nat n) * c"
    by (simp add: mult_right_mono)
  then show ?thesis by (rule doubleRounding_mono [OF d])
qed

lemma pagePercent_bounds:
  assumes "doubleRounding dbl" and "i \<le> n"
  shows "0 \<le> pagePercent dbl i n \<and> pagePercent dbl i n \<le> 30"
proof -
  let ?x = "dbl (dbl (of_nat i / of_nat n) * 30)"
  have "0 \<le> ?x" "?x \<le> 30"
    using scaled_bounds [OF assms, of 30] doubleRounding_fix(3) [OF assms(1)] by simp_all
  then have "mathRound 0 \<le> mathRound ?x" "mathRound ?x \<le> mathRound 30"
    by (simp_all only: mathRound_mono)
  moreover have "mathRound 0 = 0" "mathRound 30 = 30"
    using mathRound_int [of 0] mathRound_int [of 30] by simp_all
  ultimately show ?thesis by (simp add: pagePercent_def)
qed

lemma pagePercent_mono:
  assumes "doubleRounding dbl" and "i \<le> j"
  shows "pagePercent dbl i n \<le> pagePercent dbl j n"
  unfolding pagePercent_def
  by (rule mathRound_mono, rule scaled_mono [OF assms]) simp

lemma ocrPercent_bounds:
  assumes "doubleRounding dbl" and "i \<le> n"
  shows "30 \<le> ocrPercent dbl i n \<and> ocrPercent dbl i n \<le> 90"
proof -
  let ?y = "dbl (dbl (of_nat i / of_nat n) * 60)"
  have y: "0 \<le> ?y" "?y \<le> 60"
    using scaled_bounds [OF assms, of 60] doubleRounding_fix(4) [OF assms(1)] by simp_all
  have "dbl 30 \<le> dbl (30 + ?y)" "dbl (30 + ?y) \<le> dbl 90"
    using y by (auto intro!: doubleRounding_mono [OF assms(1)])
  then have "30 \<le> dbl (30 + ?y)" "dbl (30 + ?y) \<le> 90"
    by (simp_all add: doubleRounding_fix [OF assms(1)])
  then have "mathRound 30 \<le> mathRound (dbl (30 + ?y))" "mathRound (dbl (30 + ?y)) \<le> mathRound 90"
    by (simp_all only: mathRound_mono)
  moreover have "mathRound 30 = 30" "mathRound 90 = 90"
    using mathRound_int [of 30] mathRound_int [of 90] by simp_all
  ultimately show ?thesis by (simp add: ocrPercent_def)
qed

lemma ocrPercent_mono:
  assumes "doubleRounding dbl" and "i \<le> j"
  shows "ocrPercent dbl i n \<le> ocrPercent dbl j n"
proof -
  have "dbl (dbl (of_nat i / of_nat n) * 60) \<le> dbl (dbl (of_nat j / of_nat n) * 60)"
    by (rule scaled_mono [OF assms]) simp
  then have "30 + dbl (dbl (of_nat i / of_nat n) * 60) \<le> 30 + dbl (dbl (of_nat j / of_nat n) * 60)"
    by simp
  then show ?thesis
    unfolding ocrPercent_def
    by (intro mathRound_mono doubleRounding_mono [OF assms(1)])
qed

lemma renderPages_percentages:
  assumes "doubleRounding dbl" and "i + length ps \<le> Suc n"
  shows "sorted (percentages (fst (renderPages dbl n i ps acc))) \<and>
         (\<forall>p \<in> set (percentages (fst (renderPages dbl n i ps acc))).
            pagePercent dbl i n \<le> p \<and> 0 \<le> p \<and> p \<le> 30)"
  using assms(2)
proof (induction ps arbitrary: i acc)
  case Nil
  then show ?case by simp
next
  case (Cons p ps)
  then have i: "i \<le> n" by simp
  note b = pagePercent_bounds [OF assms(1) i]
  show ?case
  proof (cases "renderResult p")
    case (Inl t)
    with b show ?thesis by simp
  next
    case (Inr dataUrl)
    from Cons.prems have "Suc i + length ps \<le> Suc n" by simp
    from Cons.IH [OF this, of "pushPart acc dataUrl"]
    have IH: "sorted (percentages (fst (renderPages dbl n (Suc i) ps (pushPart acc dataUrl))))"
      "\<forall>p \<in> set (percentages (fst (renderPages dbl n (Suc i) ps (pushPart acc dataUrl)))).
          pagePercent dbl (Suc i) n \<le> p \<and> 0 \<le> p \<and> p \<le> 30"
      by simp_all
    have "pagePercent dbl i n \<le> pagePercent dbl (Suc i) n"
      by (rule pagePercent_mono [OF assms(1)]) simp
    then have "\<forall>q \<in> set (percentages (fst (renderPages dbl n (Suc i) ps (pushPart acc dataUrl)))).
          pagePercent dbl i n \<le> q"
      using IH(2) by fastforce
    with IH b Inr show ?thesis
      by (auto split: prod.splits)
  qed
qed

lemma ocrBatches_percentages:
  assumes "doubleRounding dbl"
  shows "sorted (percentages (fst (ocrBatches dbl E parts i acc))) \<and>
         (\<forall>p \<in> set (percentages (fst (ocrBatches dbl E parts i acc))).
            ocrPercent dbl i (length parts) \<le> p \<and> 30 \<le> p \<and> p \<le> 90)"
  using assms
proof (induction dbl E parts i acc rule: ocrBatches.induct)
  case (1 dbl E parts i acc)
  note d = \<open>doubleRounding dbl\<close>
  show ?case
  proof (cases "i < length parts")
    case False
    then have "ocrBatches dbl E parts i acc = ([], Inr acc)"
      by (subst ocrBatches.simps) simp
    then show ?thesis by simp
  next
    case True
    then have b: "30 \<le> ocrPercent dbl i (length parts)" "ocrPercent dbl i (length parts) \<le> 90"
      using ocrPercent_bounds [OF d, of i "length parts"] by simp_all
    have pe: "percentages (batchEvents dbl parts i) = [ocrPercent dbl i (length parts)]"
      by (simp add: batchEvents_def percentages_OcrRequest)
    show ?thesis
    proof (cases "promiseAll (batchResults E (take 5 (drop i parts)) i)")
      case (Inl f)
      with True have "ocrBatches dbl E parts i acc = (batchEvents dbl parts i, Inl f)"
        by (subst ocrBatches.simps) simp
      with b pe show ?thesis by simp
    next
      case (Inr results)
      let ?rest = "ocrBatches dbl E parts (i + 5) (acc @ concat results)"
      from True Inr have eq: "ocrBatches dbl E parts i acc =
          (batchEvents dbl parts i @ fst ?rest, snd ?rest)"
        by (subst ocrBatches.simps) (simp add: case_prod_beta)
      from "1.IH" [OF True Inr d]
      have IH: "sorted (percentages (fst ?rest))"
        "\<forall>p \<in> set (percentages (fst ?rest)).
            ocrPercent dbl (i + 5) (length parts) \<le> p \<and> 30 \<le> p \<and> p \<le> 90"
        by simp_all
      have "ocrPercent dbl i (length parts) \<le> ocrPercent dbl (i + 5) (length parts)"
        by (rule ocrPercent_mono [OF d]) simp
      then have "\<forall>p \<in> set (percentages (fst ?rest)). ocrPercent dbl i (length parts) \<le> p"
        using IH(2) by fastforce
      with IH b show ?thesis
        by (simp add: eq percentages_append pe)
    qed
  qed
qed

section \<open>Properties of the pipeline\<close>

subsection \<open>Sets as insertion-ordered lists\<close>

lemma set_add_set: "set (set_add s x) = insert x (set s)"
  by (auto simp: set_add_def)

lemma set_add_distinct: "distinct s \<Longrightarrow> distinct (set_add s x)"
  by (simp add: set_add_def)

lemma foldl_set_add_set: "set (foldl set_add s xs) = set s \<union> set xs"
  by (induction xs arbitrary: s) (auto simp: set_add_set)

lemma foldl_set_add_distinct: "distinct s \<Longrightarrow> distinct (foldl set_add s xs)"
  by (induction xs arbitrary: s) (auto simp: set_add_distinct)

subsection \<open>Text extraction\<close>

lemma addText_set:
  "set (addText u str) = set u \<union> (if 1 < length (trim str) then {trim str} else {})"
  by (auto simp: addText_def Let_def set_add_set)

lemma addText_distinct: "distinct u \<Longrightarrow> distinct (addText u str)"
  by (simp add: addText_def Let_def set_add_distinct)

lemma foldl_addText_set:
  "set (foldl addText u items) = set u \<union> {t. 1 < length t \<and> t \<in> trim ` set items}"
  by (induction items arbitrary: u) (auto simp: addText_set)

lemma foldl_addText_distinct: "distinct u \<Longrightarrow> distinct (foldl addText u items)"
  by (induction items arbitrary: u) (auto simp: addText_distinct)

lemma extractPages_distinct:
  "extractPages ps u = Inr texts \<Longrightarrow> distinct u \<Longrightarrow> distinct texts"
  by (induction ps arbitrary: u) (auto split: sum.splits simp: foldl_addText_distinct)

lemma extractPages_set:
  "extractPages ps u = Inr texts \<Longrightarrow>
   set texts = set u \<union> {t. 1 < length t \<and>
                  (\<exists>p \<in> set ps. \<exists>items. textItems p = Inr items \<and> t \<in> trim ` set items)}"
proof (induction ps arbitrary: u)
  case Nil
  then show ?case by simp
next
  case (Cons p ps)
  from Cons.prems obtain items where items: "textItems p = Inr items"
    and rest: "extractPages ps (foldl addText u items) = Inr texts"
    by (auto split: sum.splits)
  have "set texts = set u \<union> {t. 1 < length t \<and> t \<in> trim ` set items} \<union>
      {t. 1 < length t \<and>
          (\<exists>q \<in> set ps. \<exists>items. textItems q = Inr items \<and> t \<in> trim ` set items)}"
    using Cons.IH [OF rest] by (simp add: foldl_addText_set)
  also have "\<dots> = set u \<union> {t. 1 < length t \<and>
      (\<exists>q \<in> set (p # ps). \<exists>items. textItems q = Inr items \<and> t \<in> trim ` set items)}"
    using items by fastforce
  finally show ?case .
qed

lemma extractTextFromPdf_distinct: "extractTextFromPdf E = Inr texts \<Longrightarrow> distinct texts"
  by (auto simp: extractTextFromPdf_def split: if_splits sum.splits dest: extractPages_distinct)

lemma extractTextFromPdf_set:
  assumes "extractTextFromPdf E = Inr texts"
  shows "\<exists>pages. document E = Inr pages \<and>
           set texts = {t. 1 < length t \<and>
              (\<exists>p \<in> set pages. \<exists>items. textItems p = Inr items \<and> t \<in> trim ` set items)}"
proof -
  from assms obtain pages where pages: "document E = Inr pages"
    and ex: "extractPages pages [] = Inr texts"
    by (auto simp: extractTextFromPdf_def split: if_splits sum.splits)
  from extractPages_set [OF ex] pages show ?thesis by simp
qed

subsection \<open>Sorted keys\<close>

lemma sortedKeys_set: "set (sortedKeys dat) = key ` set dat"
  by (simp add: sortedKeys_def foldl_set_add_set)

lemma sortedKeys_strict: "sorted_wrt (<) (sortedKeys dat)"
  by (simp add: sortedKeys_def strict_sorted_iff foldl_set_add_distinct)

lemma sortedKeys_canonical: "sortedKeys dat = sorted_list_of_set (key ` set dat)"
proof (rule sorted_distinct_set_unique)
  show "sorted (sortedKeys dat)" "distinct (sortedKeys dat)"
    using sortedKeys_strict [of dat] by (simp_all add: strict_sorted_iff)
  show "sorted (sorted_list_of_set (key ` set dat))" "distinct (sorted_list_of_set (key ` set dat))"
    by simp_all
  show "set (sortedKeys dat) = set (sorted_list_of_set (key ` set dat))"
    by (simp add: sortedKeys_set)
qed

subsection \<open>Events of each branch\<close>

lemma generateKeysAndTranslations_events:
  "e \<in> set (fst (generateKeysAndTranslations E texts)) \<Longrightarrow> e = TextRequest texts"
  by (auto simp: generateKeysAndTranslations_def split: option.splits)

lemma renderPages_events:
  "e \<in> set (fst (renderPages dbl n i ps acc)) \<Longrightarrow> ocrPathEvent e \<and> \<not> directPathEvent e"
proof (induction ps arbitrary: i acc)
  case Nil
  then show ?case by simp
next
  case (Cons p ps)
  then show ?case
    by (cases "renderResult p") (auto simp: case_prod_beta)
qed

lemma renderPages_events':
  "renderPages dbl n i ps acc = (evs, r) \<Longrightarrow> e \<in> set evs \<Longrightarrow>
   ocrPathEvent e \<and> \<not> directPathEvent e"
  using renderPages_events [of e dbl n i ps acc] by simp

lemma convert_events:
  "convertPdfPagesToImageParts dbl E = (evs, r) \<Longrightarrow> e \<in> set evs \<Longrightarrow>
   ocrPathEvent e \<and> \<not> directPathEvent e"
  by (auto simp: convertPdfPagesToImageParts_def
      split: if_splits sum.splits prod.splits dest: renderPages_events')

lemma batchEvents_events:
  "e \<in> set (batchEvents dbl parts i) \<Longrightarrow> ocrPathEvent e \<and> \<not> directPathEvent e"
  by (auto simp: batchEvents_def)

lemma ocrBatches_events:
  "e \<in> set (fst (ocrBatches dbl E parts i acc)) \<Longrightarrow> ocrPathEvent e \<and> \<not> directPathEvent e"
proof (induction dbl E parts i acc rule: ocrBatches.induct)
  case (1 dbl E parts i acc)
  show ?case
  proof (cases "i < length parts")
    case False
    then have "ocrBatches dbl E parts i acc = ([], Inr acc)"
      by (subst ocrBatches.simps) simp
    with "1.prems" show ?thesis by simp
  next
    case True
    show ?thesis
    proof (cases "promiseAll (batchResults E (take 5 (drop i parts)) i)")
      case (Inl f)
      with True have "ocrBatches dbl E parts i acc = (batchEvents dbl parts i, Inl f)"
        by (subst ocrBatches.simps) simp
      with "1.prems" show ?thesis by (simp add: batchEvents_events)
    next
      case (Inr results)
      let ?rest = "ocrBatches dbl E parts (i + 5) (acc @ concat results)"
      from True Inr have "ocrBatches dbl E parts i acc =
          (batchEvents dbl parts i @ fst ?rest, snd ?rest)"
        by (subst ocrBatches.simps) (simp add: case_prod_beta)
      with "1.prems" "1.IH" [OF True Inr] show ?thesis
        by (auto dest: batchEvents_events)
    qed
  qed
qed

lemma ocrBatches_events':
  "ocrBatches dbl E parts i acc = (evs, r) \<Longrightarrow> e \<in> set evs \<Longrightarrow>
   ocrPathEvent e \<and> \<not> directPathEvent e"
  using ocrBatches_events [of e dbl E parts i acc] by simp

lemma generateLocalizationFromPdfImages_events:
  "e \<in> set (fst (generateLocalizationFromPdfImages B E)) \<Longrightarrow>
   ocrPathEvent e \<and> \<not> directPathEvent e"
  by (auto simp: generateLocalizationFromPdfImages_def
      split: if_splits sum.splits prod.splits option.splits
      dest: convert_events ocrBatches_events')

subsection \<open>Results of the OCR branch\<close>

lemma generateLocalizationFromPdfImages_result:
  "snd (generateLocalizationFromPdfImages B E) = Inr dat \<Longrightarrow>
   \<exists>allTranslations. dat = uniqueTranslations (toLowerCase B) allTranslations"
  by (auto simp: generateLocalizationFromPdfImages_def
      split: if_splits sum.splits prod.splits option.splits)

lemma processPage_failure: "processPage E part k = Inl f \<Longrightarrow> f = ApiCallFailed"
  by (auto simp: processPage_def split: reply.splits if_splits)

lemma promiseAll_Inl: "promiseAll rs = Inl f \<Longrightarrow> Inl f \<in> set rs"
  by (induction rs rule: promiseAll.induct) (auto split: sum.splits)

lemma promiseAll_Inr: "promiseAll rs = Inr xs \<Longrightarrow> Inl f \<notin> set rs"
  by (induction rs arbitrary: xs rule: promiseAll.induct) (auto split: sum.splits)

lemma zip_index: "zip b [0 ..< length b] = map (\<lambda>j. (b ! j, j)) [0 ..< length b]"
  by (rule nth_equalityI) simp_all

lemma batchResults_map:
  "batchResults E b i = map (\<lambda>j. processPage E (b ! j) (i + j)) [0 ..< length b]"
  unfolding batchResults_def zip_index by (simp add: comp_def)

lemma batchResults_indexed:
  "set (batchResults E b i) = {processPage E (b ! j) (i + j) | j. j < length b}"
  unfolding batchResults_map by (simp only: set_map set_upt) auto

lemma batchResults_set:
  "set (batchResults E (take 5 (drop i parts)) i) =
     {processPage E (parts ! k) k | k. i \<le> k \<and> k < i + 5 \<and> k < length parts}"
proof -
  let ?b = "take 5 (drop i parts)"
  have "set (batchResults E ?b i) = {processPage E (?b ! j) (i + j) | j. j < length ?b}"
    by (rule batchResults_indexed)
  also have "\<dots> = {processPage E (parts ! k) k | k. i \<le> k \<and> k < i + 5 \<and> k < length parts}"
  proof (intro equalityI subsetI)
    fix r assume "r \<in> {processPage E (?b ! j) (i + j) | j. j < length ?b}"
    then obtain j where j: "j < length ?b" and r: "r = processPage E (?b ! j) (i + j)" by auto
    from j have "j < 5" "i + j < length parts" by auto
    with r show "r \<in> {processPage E (parts ! k) k | k. i \<le> k \<and> k < i + 5 \<and> k < length parts}"
      by (auto intro!: exI [of _ "i + j"])
  next
    fix r assume "r \<in> {processPage E (parts ! k) k | k. i \<le> k \<and> k < i + 5 \<and> k < length parts}"
    then obtain k where k: "i \<le> k" "k < i + 5" "k < length parts"
      and r: "r = processPage E (parts ! k) k" by auto
    from k have "k - i < length ?b" by auto
    moreover from k have "?b ! (k - i) = parts ! k" by simp
    ultimately show "r \<in> {processPage E (?b ! j) (i + j) | j. j < length ?b}"
      using k r by (auto intro!: exI [of _ "k - i"])
  qed
  finally show ?thesis .
qed

lemma ocrBatches_critical:
  assumes "i \<le> k" and "k < length parts" and "processPage E (parts ! k) k = Inl ApiCallFailed"
  shows "snd (ocrBatches dbl E parts i acc) = Inl ApiCallFailed"
  using assms
proof (induction dbl E parts i acc rule: ocrBatches.induct)
  case (1 dbl E parts i acc)
  from "1.prems" have True: "i < length parts" by simp
  show ?case
  proof (cases "promiseAll (batchResults E (take 5 (drop i parts)) i)")
    case (Inl f)
    from promiseAll_Inl [OF Inl] have "f = ApiCallFailed"
      by (auto simp: batchResults_set dest: processPage_failure [OF sym])
    with True Inl show ?thesis
      by (subst ocrBatches.simps) simp
  next
    case (Inr results)
    have "i + 5 \<le> k"
    proof (rule ccontr)
      assume "\<not> i + 5 \<le> k"
      with "1.prems" have "Inl ApiCallFailed \<in> set (batchResults E (take 5 (drop i parts)) i)"
        by (auto simp: batchResults_set intro!: exI [of _ k])
      with promiseAll_Inr [OF Inr] show False by simp
    qed
    from "1.IH" [OF True Inr this "1.prems"(2,3)] True Inr show ?thesis
      by (subst ocrBatches.simps) (simp add: case_prod_beta)
  qed
qed

subsection \<open>What the OCR branch aggregates\<close>

lemma promiseAll_Inr_values: "promiseAll rs = Inr xs \<Longrightarrow> rs = map Inr xs"
  by (induction rs arbitrary: xs rule: promiseAll.induct) (auto split: sum.splits)

lemma upt_split5: "i < n \<Longrightarrow> [i ..< n] = [i ..< min (i + 5) n] @ [i + 5 ..< n]"
proof (cases "i + 5 \<le> n")
  case True
  then obtain d where n: "n = (i + 5) + d" using le_Suc_ex by blast
  have "[i ..< (i + 5) + d] = [i ..< i + 5] @ [i + 5 ..< (i + 5) + d]"
    by (rule upt_add_eq_append) simp
  with True n show ?thesis by (simp add: min_def)
next
  case False
  then show ?thesis by (simp add: min_def)
qed

lemma batch_concat:
  assumes "i < length parts"
    and "promiseAll (batchResults E (take 5 (drop i parts)) i) = Inr results"
  shows "concat results = concat (map (pageRecords E parts) [i ..< min (i + 5) (length parts)])"
proof -
  let ?b = "take 5 (drop i parts)"
  let ?n = "length ?b"
  have n: "i + ?n = min (i + 5) (length parts)" using assms(1) by auto
  from promiseAll_Inr_values [OF assms(2)]
  have m: "map (\<lambda>j. processPage E (?b ! j) (i + j)) [0 ..< ?n] = map Inr results"
    by (simp only: batchResults_map)
  then have len: "length results = ?n"
    using length_map [of Inr results] length_map [of "\<lambda>j. processPage E (?b ! j) (i + j)" "[0 ..< ?n]"]
    by simp
  have "results = map (\<lambda>j. pageRecords E parts (i + j)) [0 ..< ?n]"
  proof (rule nth_equalityI)
    show "length results = length (map (\<lambda>j. pageRecords E parts (i + j)) [0 ..< ?n])"
      using len by simp
  next
    fix j assume j: "j < length results"
    with len have jn: "j < ?n" by simp
    from m have "map (\<lambda>j. processPage E (?b ! j) (i + j)) [0 ..< ?n] ! j = map Inr results ! j"
      by simp
    with j jn have "processPage E (?b ! j) (i + j) = Inr (results ! j)"
      by (simp only: nth_map length_upt nth_upt minus_nat.diff_0 add_0)
    moreover from jn assms(1) have "?b ! j = parts ! (i + j)" by (simp add: nth_drop)
    ultimately have "pageRecords E parts (i + j) = results ! j"
      by (simp add: pageRecords_def)
    with jn show "results ! j = map (\<lambda>j. pageRecords E parts (i + j)) [0 ..< ?n] ! j"
      by (simp only: nth_map length_upt nth_upt minus_nat.diff_0 add_0)
  qed
  also have "\<dots> = map (pageRecords E parts) (map (\<lambda>j. j + i) [0 ..< ?n])"
    by (simp add: comp_def add.commute)
  also have "map (\<lambda>j. j + i) [0 ..< ?n] = [i ..< ?n + i]"
    by (rule map_add_upt)
  finally show ?thesis using n by (simp only: add.commute [of ?n i])
qed

lemma ocrBatches_result:
  "ocrBatches dbl E parts i acc = (evs, Inr allTranslations) \<Longrightarrow>
   allTranslations = acc @ concat (map (pageRecords E parts) [i ..< length parts])"
proof (induction dbl E parts i acc arbitrary: evs rule: ocrBatches.induct)
  case (1 dbl E parts i acc)
  show ?case
  proof (cases "i < length parts")
    case False
    then have "ocrBatches dbl E parts i acc = ([], Inr acc)"
      by (subst ocrBatches.simps) simp
    with "1.prems" False show ?thesis by simp
  next
    case True
    show ?thesis
    proof (cases "promiseAll (batchResults E (take 5 (drop i parts)) i)")
      case (Inl f)
      with True have "ocrBatches dbl E parts i acc = (batchEvents dbl parts i, Inl f)"
        by (subst ocrBatches.simps) simp
      with "1.prems" show ?thesis by simp
    next
      case (Inr results)
      let ?rest = "ocrBatches dbl E parts (i + 5) (acc @ concat results)"
      from True Inr have "ocrBatches dbl E parts i acc =
          (batchEvents dbl parts i @ fst ?rest, snd ?rest)"
        by (subst ocrBatches.simps) (simp add: case_prod_beta)
      with "1.prems" have "?rest = (fst ?rest, Inr allTranslations)"
        by (simp add: prod_eq_iff)
      from "1.IH" [OF True Inr this]
      have "allTranslations =
          acc @ concat results @ concat (map (pageRecords E parts) [i + 5 ..< length parts])"
        by simp
      with batch_concat [OF True Inr] upt_split5 [OF True] show ?thesis
        by simp
    qed
  qed
qed

lemma renderPages_result:
  "renderPages dbl n i ps acc = (evs, Inr imageParts) \<Longrightarrow>
   \<exists>urls. map renderResult ps = map Inr urls \<and> imageParts = foldl pushPart acc urls"
proof (induction ps arbitrary: i acc evs)
  case Nil
  then show ?case by simp
next
  case (Cons p ps)
  show ?case
  proof (cases "renderResult p")
    case (Inl t)
    with Cons.prems show ?thesis by simp
  next
    case (Inr url)
    let ?rest = "renderPages dbl n (Suc i) ps (pushPart acc url)"
    from Cons.prems Inr have "?rest = (fst ?rest, Inr imageParts)"
      by (simp add: case_prod_beta prod_eq_iff)
    from Cons.IH [OF this] obtain urls where
      "map renderResult ps = map Inr urls" "imageParts = foldl pushPart (pushPart acc url) urls"
      by blast
    with Inr show ?thesis
      by (intro exI [of _ "url # urls"]) simp
  qed
qed

lemma convert_result:
  assumes "snd (convertPdfPagesToImageParts dbl E) = Inr imageParts"
  shows "\<exists>pages urls. document E = Inr pages \<and> map renderResult pages = map Inr urls \<and>
           imageParts = foldl pushPart [] urls"
proof -
  from assms obtain pages evs where pages: "document E = Inr pages"
    and r: "renderPages dbl (length pages) 1 pages [] = (evs, Inr imageParts)"
    by (auto simp: convertPdfPagesToImageParts_def split: if_splits sum.splits prod.splits)
  from renderPages_result [OF r] pages show ?thesis by blast
qed

lemma generateLocalizationFromPdfImages_pages:
  assumes "snd (generateLocalizationFromPdfImages B E) = Inr dat"
  shows "\<exists>imageParts. snd (convertPdfPagesToImageParts (toDouble B) E) = Inr imageParts \<and>
           dat = uniqueTranslations (toLowerCase B)
                   (concat (map (pageRecords E imageParts) [0 ..< length imageParts]))"
proof -
  from assms obtain evs imageParts evs' allTranslations where
    c: "convertPdfPagesToImageParts (toDouble B) E = (evs, Inr imageParts)"
    and b: "ocrBatches (toDouble B) E imageParts 0 [] = (evs', Inr allTranslations)"
    and d: "dat = uniqueTranslations (toLowerCase B) allTranslations"
    by (auto simp: generateLocalizationFromPdfImages_def
        split: if_splits sum.splits prod.splits option.splits)
  from ocrBatches_result [OF b] c d show ?thesis by simp
qed

subsection \<open>Joining lines\<close>

lemma join_terminated: "xs \<noteq> [] \<Longrightarrow> join sep xs @ sep = concat (map (\<lambda>x. x @ sep) xs)"
  by (induction sep xs rule: join.induct) auto

subsection \<open>Percentages of a whole run\<close>

lemma convert_percentages:
  assumes d: "doubleRounding dbl"
  shows "sorted (percentages (fst (convertPdfPagesToImageParts dbl E))) \<and>
         (\<forall>p \<in> set (percentages (fst (convertPdfPagesToImageParts dbl E))). 0 \<le> p \<and> p \<le> 30)"
proof (cases "pdfjsLoaded E \<and> context2d E")
  case False
  then show ?thesis
    by (auto simp: convertPdfPagesToImageParts_def split: sum.splits)
next
  case True
  show ?thesis
  proof (cases "document E")
    case (Inl t)
    with True show ?thesis by (simp add: convertPdfPagesToImageParts_def)
  next
    case (Inr pages)
    obtain evs r where rp: "renderPages dbl (length pages) 1 pages [] = (evs, r)"
      by (cases "renderPages dbl (length pages) 1 pages []")
    have "sorted (percentages evs)" "\<forall>p \<in> set (percentages evs). 0 \<le> p \<and> p \<le> 30"
      using renderPages_percentages [OF d, of 1 pages "length pages" "[]"] rp by simp_all
    with True Inr rp show ?thesis
      by (cases r) (simp_all add: convertPdfPagesToImageParts_def percentages_append)
  qed
qed

lemma generateLocalizationFromPdfImages_percentages:
  assumes d: "doubleRounding (toDouble B)"
  shows "sorted (percentages (fst (generateLocalizationFromPdfImages B E))) \<and>
         (\<forall>p \<in> set (percentages (fst (generateLocalizationFromPdfImages B E))). 0 \<le> p \<and> p \<le> 90)"
proof -
  obtain evs r where c: "convertPdfPagesToImageParts (toDouble B) E = (evs, r)"
    by (cases "convertPdfPagesToImageParts (toDouble B) E")
  have cp: "sorted (percentages evs)" "\<forall>p \<in> set (percentages evs). 0 \<le> p \<and> p \<le> 30"
    using convert_percentages [OF d, of E] c by simp_all
  then have c90: "\<forall>p \<in> set (percentages evs). 0 \<le> p \<and> p \<le> 90" by fastforce
  show ?thesis
  proof (cases r)
    case (Inl f)
    with c cp(1) c90 show ?thesis by (simp add: generateLocalizationFromPdfImages_def)
  next
    case (Inr parts)
    obtain evs' r' where b: "ocrBatches (toDouble B) E parts 0 [] = (evs', r')"
      by (cases "ocrBatches (toDouble B) E parts 0 []")
    have bp: "sorted (percentages evs')" "\<forall>p \<in> set (percentages evs'). 30 \<le> p \<and> p \<le> 90"
      using ocrBatches_percentages [OF d, of E parts 0 "[]"] b by simp_all
    have cross: "\<forall>x \<in> set (percentages evs). \<forall>y \<in> set (percentages evs'). x \<le> y"
      using cp(2) bp(2) by fastforce
    have b0: "\<forall>p \<in> set (percentages evs'). 0 \<le> p" using bp(2) by fastforce
    from c Inr b cp(1) c90 bp cross b0 show ?thesis
      by (cases r'; cases "aiClient E"; cases "parts = []")
         (auto simp: generateLocalizationFromPdfImages_def percentages_append sorted_append)
  qed
qed

lemma generateKeysAndTranslations_percentages:
  "percentages (fst (generateKeysAndTranslations E texts)) = []"
  by (simp add: generateKeysAndTranslations_def split: option.splits)

lemma localizationData_events_direct:
  assumes "extractTextFromPdf E = Inr texts" and "5 < length texts"
  shows "fst (localizationData B E) =
           Progress ExtractingText 5 # Progress GeneratingKeys 50
             # fst (generateKeysAndTranslations E texts)"
    and "snd (localizationData B E) = snd (generateKeysAndTranslations E texts)"
  using assms by (simp_all add: localizationData_def case_prod_beta)

lemma localizationData_events_ocr:
  assumes "extractTextFromPdf E = Inr texts" and "length texts \<le> 5"
  shows "fst (localizationData B E) =
           Progress ExtractingText 5 # Progress StartingOcr 10
             # fst (generateLocalizationFromPdfImages B E)"
    and "snd (localizationData B E) = snd (generateLocalizationFromPdfImages B E)"
  using assms by (simp_all add: localizationData_def case_prod_beta)

lemma localizationData_events_failed:
  assumes "extractTextFromPdf E = Inl f"
  shows "localizationData B E = ([Progress ExtractingText 5], Inl f)"
  using assms by (simp add: localizationData_def)

lemma processPdf_events:
  "fst (processPdfForLocalization B E) = fst (localizationData B E) \<or>
   fst (processPdfForLocalization B E) = fst (localizationData B E) @ [Progress ConstructingFiles 95]"
  by (auto simp: processPdfForLocalization_def split: prod.splits sum.splits)

lemma localizationData_percentages:
  assumes d: "doubleRounding (toDouble B)"
  shows "percentages (fst (localizationData B E)) \<in> {[5], [5, 50]} \<or>
         (\<exists>rest. percentages (fst (localizationData B E)) = 5 # 10 # rest \<and> sorted rest \<and>
                 (\<forall>p \<in> set rest. 0 \<le> p \<and> p \<le> 90) \<and>
                 Progress StartingOcr 10 \<in> set (fst (localizationData B E)))"
proof (cases "extractTextFromPdf E")
  case (Inl f)
  then show ?thesis by (simp add: localizationData_events_failed)
next
  case (Inr texts)
  show ?thesis
  proof (cases "5 < length texts")
    case True
    from localizationData_events_direct(1) [OF Inr True] show ?thesis
      by (simp add: generateKeysAndTranslations_percentages)
  next
    case False
    then have "length texts \<le> 5" by simp
    from localizationData_events_ocr(1) [OF Inr this, of B]
      generateLocalizationFromPdfImages_percentages [OF d, of E]
    show ?thesis by simp
  qed
qed

section \<open>Claims about the cross-page consolidation\<close>

text \<open>
  C2, as the specification states it: the consolidation returns, in encounter order, the
  first record seen for each distinct identity. The source keeps a record only when its
  identity is not the empty string (\<open>if (uniqueKey && ...)\<close>), so the statement fails on
  a record whose \<open>en_text\<close> and \<open>ar_text\<close> are both blank: the specification's
  reading keeps it, the code returns nothing.
\<close>

theorem consolidation_blank_counterexample:
  "uniqueTranslations lowerAscii [recBlank] = [] \<and>
   spec_consolidate lowerAscii [recBlank] = [recBlank]"
  by (simp add: sample_defs dedup_defs spec_consolidate_def spec_identity_def)

text \<open>
  C2, amended: for a lowercasing function that maps only the empty string to the empty
  string, the consolidation returns, in encounter order, the first record seen for each
  distinct identity among the records whose identity is not empty, where the identity
  is \<open>en_text\<close> trimmed and lowercased, or \<open>ar_text\<close> trimmed when the trimmed
  \<open>en_text\<close> is empty.
\<close>

theorem consolidation_first_per_nonempty_identity:
  assumes "\<forall>s. (lower s = []) = (s = [])"
  shows "uniqueTranslations lower xs =
           spec_consolidate lower (filter (\<lambda>r. spec_identity lower r \<noteq> []) xs)"
  using assms
  by (simp add: uniqueTranslations_eq spec_consolidate_def uniqueKey_spec_identity)

theorem consolidation_first_per_nonempty_identity_witness:
  "(\<forall>s. (lowerAscii s = []) = (s = [])) \<and>
   uniqueTranslations lowerAscii sampleRecords = [recSubmit, recCancel, recArabicOnly]"
proof -
  have h: "\<forall>s. (lowerAscii s = []) = (s = [])"
    by (simp add: lowerAscii_def)
  have "spec_consolidate lowerAscii
          (filter (\<lambda>r. spec_identity lowerAscii r \<noteq> []) sampleRecords)
          = [recSubmit, recCancel, recArabicOnly]"
    by (simp add: sample_defs spec_consolidate_def spec_identity_def)
  with consolidation_first_per_nonempty_identity [OF h, of sampleRecords] h show ?thesis
    by simp
qed

text \<open>
  C8: the consolidation is idempotent. For every list of records and every lowercasing
  function, consolidating the output of the consolidation returns it unchanged.
\<close>

theorem consolidation_idempotent:
  "uniqueTranslations lower (uniqueTranslations lower xs) = uniqueTranslations lower xs"
  by (rule uniqueTranslations_fixed)
     (auto simp: uniqueTranslations_distinct dest: uniqueTranslations_keys_nonempty)

text \<open>
  C10: a record whose \<open>en_text\<close> and \<open>ar_text\<close> both trim to the empty string is not
  in the result of the consolidation, whatever list it is part of, and so is not in the
  list that the OCR branch returns for the files. The lowercasing function maps the
  empty string to itself.
\<close>

theorem blank_record_dropped:
  assumes "lower [] = []" and "trim (en_text r) = []" and "trim (ar_text r) = []"
  shows "r \<notin> set (uniqueTranslations lower xs) \<and>
         (\<forall>B E dat. toLowerCase B = lower \<longrightarrow>
            snd (generateLocalizationFromPdfImages B E) = Inr dat \<longrightarrow> r \<notin> set dat)"
proof -
  from assms have k: "uniqueKey lower r = []"
    by (simp add: uniqueKey_def)
  then have a: "r \<notin> set (uniqueTranslations lower ys)" for ys
    using uniqueTranslations_keys_nonempty [of r lower ys] by auto
  have "r \<notin> set dat"
    if "toLowerCase B = lower" "snd (generateLocalizationFromPdfImages B E) = Inr dat" for B E dat
    using generateLocalizationFromPdfImages_result [OF that(2)] that(1) a by auto
  with a show ?thesis by blast
qed

theorem blank_record_dropped_witness:
  "lowerAscii [] = [] \<and> trim (en_text recBlank) = [] \<and> trim (ar_text recBlank) = [] \<and>
   recBlank \<in> set sampleRecords \<and> recBlank \<notin> set (uniqueTranslations lowerAscii sampleRecords) \<and>
   snd (generateLocalizationFromPdfImages sampleBuiltins
          (scannedPdf 1 (\<lambda>i. Parsed [recBlank, recSubmit]))) = Inr [recSubmit]"
proof -
  have l: "lowerAscii [] = []" by (simp add: lowerAscii_def)
  have e: "trim (en_text recBlank) = []" by (simp add: sample_defs)
  have a: "trim (ar_text recBlank) = []" by (simp add: sample_defs)
  have m: "recBlank \<in> set sampleRecords" by (simp add: sampleRecords_def)
  have r: "snd (generateLocalizationFromPdfImages sampleBuiltins
          (scannedPdf 1 (\<lambda>i. Parsed [recBlank, recSubmit]))) = Inr [recSubmit]"
    by code_simp
  from blank_record_dropped [where lower = lowerAscii and r = recBlank and xs = sampleRecords,
      OF l e a] l e a m r
  show ?thesis by simp
qed

section \<open>Claims about the pipeline\<close>

text \<open>
  C1: after text extraction the pipeline branches on the number of unique extracted
  strings. The extracted strings are pairwise distinct: they are the trimmed text items
  longer than one code unit. With more than 5 of them the run is the direct-translation
  path: it reports "Generating keys & translations..." at 50, runs
  \<open>generateKeysAndTranslations\<close> on these strings (so the request for them is sent
  and its reply decides the result of the run) and produces no event of the OCR branch.
  With 5 or fewer (exactly 5 included) it is the OCR path: it reports "Text extraction
  insufficient. Starting OCR process..." at 10, runs
  \<open>generateLocalizationFromPdfImages\<close>, whose result decides the result of the run,
  and produces no event of the direct branch.
\<close>

theorem branch_on_unique_text_count:
  assumes "extractTextFromPdf E = Inr texts"
  shows "distinct texts \<and>
    (\<exists>pages. document E = Inr pages \<and>
       set texts = {t. 1 < length t \<and>
          (\<exists>p \<in> set pages. \<exists>items. textItems p = Inr items \<and> t \<in> trim ` set items)}) \<and>
    (5 < length texts \<longrightarrow>
       localizationData B E =
         (Progress ExtractingText 5 # Progress GeneratingKeys 50
            # fst (generateKeysAndTranslations E texts),
          snd (generateKeysAndTranslations E texts)) \<and>
       (aiClient E = None \<longrightarrow>
          fst (localizationData B E) =
            [Progress ExtractingText 5, Progress GeneratingKeys 50, TextRequest texts] \<and>
          snd (processPdfForLocalization B E) =
            (case textService E texts of
               CallFails e \<Rightarrow>
                 Inl (if textCritical e then ApiCallFailed else UnknownTranslationError)
             | ParseFails e \<Rightarrow> Inl InvalidAiResponse
             | Parsed dat \<Rightarrow>
                 if dat = [] then Inl NoLocalizableText
                 else Inr (generateFlutterFiles (jsonOfAssignments B) dat))) \<and>
       take 2 (fst (processPdfForLocalization B E)) =
         [Progress ExtractingText 5, Progress GeneratingKeys 50] \<and>
       (\<forall>e \<in> set (fst (processPdfForLocalization B E)). \<not> ocrPathEvent e)) \<and>
    (length texts \<le> 5 \<longrightarrow>
       localizationData B E =
         (Progress ExtractingText 5 # Progress StartingOcr 10
            # fst (generateLocalizationFromPdfImages B E),
          snd (generateLocalizationFromPdfImages B E)) \<and>
       snd (processPdfForLocalization B E) =
         (case snd (generateLocalizationFromPdfImages B E) of
            Inl f \<Rightarrow> Inl f
          | Inr dat \<Rightarrow>
              if dat = [] then Inl NoLocalizableText
              else Inr (generateFlutterFiles (jsonOfAssignments B) dat)) \<and>
       take 2 (fst (processPdfForLocalization B E)) =
         [Progress ExtractingText 5, Progress StartingOcr 10] \<and>
       (\<forall>e \<in> set (fst (processPdfForLocalization B E)). \<not> directPathEvent e))"
proof (intro conjI impI)
  show "distinct texts" by (rule extractTextFromPdf_distinct [OF assms])
  show "\<exists>pages. document E = Inr pages \<and>
       set texts = {t. 1 < length t \<and>
          (\<exists>p \<in> set pages. \<exists>items. textItems p = Inr items \<and> t \<in> trim ` set items)}"
    by (rule extractTextFromPdf_set [OF assms])
next
  assume many: "5 < length texts"
  note ld = localizationData_events_direct [OF assms many, of B]
  from ld show "localizationData B E =
         (Progress ExtractingText 5 # Progress GeneratingKeys 50
            # fst (generateKeysAndTranslations E texts),
          snd (generateKeysAndTranslations E texts))"
    by (simp add: prod_eq_iff)
  from processPdf_events [of B E] ld(1)
  show "take 2 (fst (processPdfForLocalization B E)) =
         [Progress ExtractingText 5, Progress GeneratingKeys 50]"
    by auto
  have "\<not> ocrPathEvent e" if "e \<in> set (fst (generateKeysAndTranslations E texts))" for e
    using generateKeysAndTranslations_events [OF that] by simp
  with processPdf_events [of B E] ld(1)
  show "\<forall>e \<in> set (fst (processPdfForLocalization B E)). \<not> ocrPathEvent e"
    by auto
  {
    assume client: "aiClient E = None"
    with ld(1) show "fst (localizationData B E) =
        [Progress ExtractingText 5, Progress GeneratingKeys 50, TextRequest texts]"
      by (simp add: generateKeysAndTranslations_def)
    from client ld(2) show "snd (processPdfForLocalization B E) =
        (case textService E texts of
           CallFails e \<Rightarrow>
             Inl (if textCritical e then ApiCallFailed else UnknownTranslationError)
         | ParseFails e \<Rightarrow> Inl InvalidAiResponse
         | Parsed dat \<Rightarrow>
             if dat = [] then Inl NoLocalizableText
             else Inr (generateFlutterFiles (jsonOfAssignments B) dat))"
      by (cases "localizationData B E")
         (auto simp: processPdfForLocalization_def generateKeysAndTranslations_def
            split: reply.splits sum.splits)
  }
next
  assume few: "length texts \<le> 5"
  note ld = localizationData_events_ocr [OF assms few, of B]
  from ld show "localizationData B E =
         (Progress ExtractingText 5 # Progress StartingOcr 10
            # fst (generateLocalizationFromPdfImages B E),
          snd (generateLocalizationFromPdfImages B E))"
    by (simp add: prod_eq_iff)
  from ld(2) show "snd (processPdfForLocalization B E) =
         (case snd (generateLocalizationFromPdfImages B E) of
            Inl f \<Rightarrow> Inl f
          | Inr dat \<Rightarrow>
              if dat = [] then Inl NoLocalizableText
              else Inr (generateFlutterFiles (jsonOfAssignments B) dat))"
    by (cases "localizationData B E")
       (auto simp: processPdfForLocalization_def split: sum.splits)
  from processPdf_events [of B E] ld(1)
  show "take 2 (fst (processPdfForLocalization B E)) =
         [Progress ExtractingText 5, Progress StartingOcr 10]"
    by auto
  have "\<not> directPathEvent e" if "e \<in> set (fst (generateLocalizationFromPdfImages B E))" for e
    using generateLocalizationFromPdfImages_events [OF that] by simp
  with processPdf_events [of B E] ld(1)
  show "\<forall>e \<in> set (fst (processPdfForLocalization B E)). \<not> directPathEvent e"
    by auto
qed

theorem branch_on_unique_text_count_witness:
  "extractTextFromPdf (textPdf sixTexts (Parsed [recSubmit])) =
     Inr [js ''Hello'', js ''Submit'', js ''Cancel'', js ''Save'', js ''Open'', js ''Close''] \<and>
   fst (localizationData sampleBuiltins (textPdf sixTexts (Parsed [recSubmit]))) =
     [Progress ExtractingText 5, Progress GeneratingKeys 50,
      TextRequest [js ''Hello'', js ''Submit'', js ''Cancel'', js ''Save'', js ''Open'',
                   js ''Close'']] \<and>
   snd (processPdfForLocalization sampleBuiltins (textPdf sixTexts (Parsed [recSubmit]))) =
     Inr (generateFlutterFiles (jsonOfAssignments sampleBuiltins) [recSubmit]) \<and>
   extractTextFromPdf (textPdf fiveTexts (Parsed [recSubmit])) =
     Inr [js ''Hello'', js ''Submit'', js ''Cancel'', js ''Save'', js ''Open''] \<and>
   take 2 (fst (processPdfForLocalization sampleBuiltins (textPdf fiveTexts (Parsed [recSubmit]))))
     = [Progress ExtractingText 5, Progress StartingOcr 10] \<and>
   snd (processPdfForLocalization sampleBuiltins (textPdf fiveTexts (Parsed [recSubmit]))) =
     Inr (generateFlutterFiles (jsonOfAssignments sampleBuiltins) [recCancel])"
proof -
  have six: "extractTextFromPdf (textPdf sixTexts (Parsed [recSubmit])) =
     Inr [js ''Hello'', js ''Submit'', js ''Cancel'', js ''Save'', js ''Open'', js ''Close'']"
    by code_simp
  have five: "extractTextFromPdf (textPdf fiveTexts (Parsed [recSubmit])) =
     Inr [js ''Hello'', js ''Submit'', js ''Cancel'', js ''Save'', js ''Open'']"
    by code_simp
  have client: "aiClient (textPdf sixTexts (Parsed [recSubmit])) = None"
    by (simp add: textPdf_def)
  have reply: "textService (textPdf sixTexts (Parsed [recSubmit])) texts = Parsed [recSubmit]"
    for texts by (simp add: textPdf_def)
  have ocr: "snd (generateLocalizationFromPdfImages sampleBuiltins
                    (textPdf fiveTexts (Parsed [recSubmit]))) = Inr [recCancel]"
    by code_simp
  have many: "5 < length [js ''Hello'', js ''Submit'', js ''Cancel'', js ''Save'', js ''Open'',
                          js ''Close'']"
    by simp
  have few: "length [js ''Hello'', js ''Submit'', js ''Cancel'', js ''Save'', js ''Open''] \<le> 5"
    by simp
  note direct = branch_on_unique_text_count [OF six, of sampleBuiltins,
      THEN conjunct2, THEN conjunct2, THEN conjunct1, THEN mp, OF many,
      THEN conjunct2, THEN conjunct1, THEN mp, OF client]
  note scanned = branch_on_unique_text_count [OF five, of sampleBuiltins,
      THEN conjunct2, THEN conjunct2, THEN conjunct2, THEN mp, OF few, THEN conjunct2]
  have a1: "fst (localizationData sampleBuiltins (textPdf sixTexts (Parsed [recSubmit]))) =
     [Progress ExtractingText 5, Progress GeneratingKeys 50,
      TextRequest [js ''Hello'', js ''Submit'', js ''Cancel'', js ''Save'', js ''Open'',
                   js ''Close'']]"
    by (rule direct [THEN conjunct1])
  have a2: "snd (processPdfForLocalization sampleBuiltins (textPdf sixTexts (Parsed [recSubmit]))) =
     Inr (generateFlutterFiles (jsonOfAssignments sampleBuiltins) [recSubmit])"
    using direct [THEN conjunct2] reply by simp
  have b1: "take 2 (fst (processPdfForLocalization sampleBuiltins
                          (textPdf fiveTexts (Parsed [recSubmit]))))
     = [Progress ExtractingText 5, Progress StartingOcr 10]"
    by (rule scanned [THEN conjunct2, THEN conjunct1])
  have b2: "snd (processPdfForLocalization sampleBuiltins (textPdf fiveTexts (Parsed [recSubmit]))) =
     Inr (generateFlutterFiles (jsonOfAssignments sampleBuiltins) [recCancel])"
    using scanned [THEN conjunct1] ocr by simp
  from six five a1 a2 b1 b2 show ?thesis by blast
qed

text \<open>
  C3, as the specification states it: on every successful run, on the direct-text path
  as well as on the OCR path, the list passed to file materialization is de-duplicated
  and ordered by key. On the direct-text path the source passes the parsed reply of the
  service on as it is, so two records with the same normalized \<open>en_text\<close> both reach
  the files; on the OCR path the list is in encounter order, here "submit" before
  "cancel".
\<close>

theorem materialized_records_counterexample:
  "snd (processPdfForLocalization sampleBuiltins
          (textPdf sixTexts (Parsed [recSubmit, recSubmitUpper])))
     = Inr (generateFlutterFiles (jsonOfAssignments sampleBuiltins) [recSubmit, recSubmitUpper]) \<and>
   uniqueKey lowerAscii recSubmit = uniqueKey lowerAscii recSubmitUpper \<and>
   recSubmit \<noteq> recSubmitUpper \<and>
   snd (processPdfForLocalization sampleBuiltins
          (scannedPdf 1 (\<lambda>i. Parsed [recSubmit, recCancel])))
     = Inr (generateFlutterFiles (jsonOfAssignments sampleBuiltins) [recSubmit, recCancel]) \<and>
   \<not> sorted (map key [recSubmit, recCancel])"
  by code_simp

text \<open>
  C3, amended: on every successful run the list passed to file materialization is not
  empty. On the OCR path the page images are those of the pages in page order, and the
  list is what remains of the records of all page images, taken in that order, when the
  records with an empty normalized identity are left out and only the first record of
  each identity is kept, in encounter order: no two of its records share the identity
  (\<open>en_text\<close> trimmed and lowercased, or \<open>ar_text\<close> trimmed when that is empty) and
  no identity is empty. On the direct-text path the list is the parsed reply of the
  translation service, unchanged.
\<close>

theorem materialized_records:
  assumes "extractTextFromPdf E = Inr texts"
    and "snd (processPdfForLocalization B E) = Inr files"
  shows "\<exists>dat. files = generateFlutterFiles (jsonOfAssignments B) dat \<and> dat \<noteq> [] \<and>
           snd (localizationData B E) = Inr dat \<and>
           (5 < length texts \<longrightarrow> textService E texts = Parsed dat) \<and>
           (length texts \<le> 5 \<longrightarrow>
              (\<exists>pages urls imageParts.
                  document E = Inr pages \<and> map renderResult pages = map Inr urls \<and>
                  imageParts = foldl pushPart [] urls \<and>
                  dat = firstPerIdentity (uniqueKey (toLowerCase B)) []
                          (filter (\<lambda>r. uniqueKey (toLowerCase B) r \<noteq> [])
                             (concat (map (pageRecords E imageParts)
                                        [0 ..< length imageParts])))) \<and>
              distinct (map (uniqueKey (toLowerCase B)) dat) \<and>
              (\<forall>r \<in> set dat. uniqueKey (toLowerCase B) r \<noteq> []))"
proof -
  from assms(2) obtain dat where dat: "snd (localizationData B E) = Inr dat"
    and files: "files = generateFlutterFiles (jsonOfAssignments B) dat" and ne: "dat \<noteq> []"
    by (auto simp: processPdfForLocalization_def split: prod.splits sum.splits if_splits)
  have direct: "textService E texts = Parsed dat" if "5 < length texts"
    using localizationData_events_direct(2) [OF assms(1) that, of B] dat
    by (auto simp: generateKeysAndTranslations_def split: option.splits reply.splits)
  have ocr: "(\<exists>pages urls imageParts.
                  document E = Inr pages \<and> map renderResult pages = map Inr urls \<and>
                  imageParts = foldl pushPart [] urls \<and>
                  dat = firstPerIdentity (uniqueKey (toLowerCase B)) []
                          (filter (\<lambda>r. uniqueKey (toLowerCase B) r \<noteq> [])
                             (concat (map (pageRecords E imageParts)
                                        [0 ..< length imageParts])))) \<and>
             distinct (map (uniqueKey (toLowerCase B)) dat) \<and>
             (\<forall>r \<in> set dat. uniqueKey (toLowerCase B) r \<noteq> [])" if "length texts \<le> 5"
  proof -
    from localizationData_events_ocr(2) [OF assms(1) that, of B] dat
    have g: "snd (generateLocalizationFromPdfImages B E) = Inr dat" by simp
    from generateLocalizationFromPdfImages_pages [OF g] obtain imageParts where
      c: "snd (convertPdfPagesToImageParts (toDouble B) E) = Inr imageParts"
      and d: "dat = uniqueTranslations (toLowerCase B)
                (concat (map (pageRecords E imageParts) [0 ..< length imageParts]))"
      by blast
    from convert_result [OF c] obtain pages urls where
      p: "document E = Inr pages" "map renderResult pages = map Inr urls"
         "imageParts = foldl pushPart [] urls"
      by blast
    from d have "dat = firstPerIdentity (uniqueKey (toLowerCase B)) []
                          (filter (\<lambda>r. uniqueKey (toLowerCase B) r \<noteq> [])
                             (concat (map (pageRecords E imageParts)
                                        [0 ..< length imageParts])))"
      by (simp only: uniqueTranslations_eq)
    moreover from d have "distinct (map (uniqueKey (toLowerCase B)) dat)"
      by (simp add: uniqueTranslations_distinct)
    moreover from d have "\<forall>r \<in> set dat. uniqueKey (toLowerCase B) r \<noteq> []"
      by (auto dest: uniqueTranslations_keys_nonempty)
    ultimately show ?thesis using p by blast
  qed
  from dat files ne direct ocr show ?thesis by blast
qed

theorem materialized_records_witness:
  "extractTextFromPdf (scannedPdf 8 mixedPages) = Inr [] \<and>
   snd (processPdfForLocalization sampleBuiltins (scannedPdf 8 mixedPages))
     = Inr (generateFlutterFiles (jsonOfAssignments sampleBuiltins)
              [recCancel, recSubmitUpper, recArabicOnly]) \<and>
   snd (localizationData sampleBuiltins (scannedPdf 8 mixedPages))
     = Inr [recCancel, recSubmitUpper, recArabicOnly] \<and>
   extractTextFromPdf (textPdf sixTexts (Parsed [recSubmit, recSubmitUpper])) =
     Inr [js ''Hello'', js ''Submit'', js ''Cancel'', js ''Save'', js ''Open'', js ''Close''] \<and>
   snd (processPdfForLocalization sampleBuiltins
          (textPdf sixTexts (Parsed [recSubmit, recSubmitUpper])))
     = Inr (generateFlutterFiles (jsonOfAssignments sampleBuiltins) [recSubmit, recSubmitUpper]) \<and>
   snd (localizationData sampleBuiltins (textPdf sixTexts (Parsed [recSubmit, recSubmitUpper])))
     = Inr [recSubmit, recSubmitUpper]"
proof -
  let ?url = "js ''data:image/jpeg;base64,QUJD''"
  let ?pages = "replicate 8 \<lparr>textItems = Inr [], renderResult = Inr ?url\<rparr>"
  have none: "extractTextFromPdf (scannedPdf 8 mixedPages) = Inr []"
    by code_simp
  have ocr: "snd (processPdfForLocalization sampleBuiltins (scannedPdf 8 mixedPages))
     = Inr (generateFlutterFiles (jsonOfAssignments sampleBuiltins)
              [recCancel, recSubmitUpper, recArabicOnly])"
    by code_simp
  have six: "extractTextFromPdf (textPdf sixTexts (Parsed [recSubmit, recSubmitUpper])) =
     Inr [js ''Hello'', js ''Submit'', js ''Cancel'', js ''Save'', js ''Open'', js ''Close'']"
    by code_simp
  have direct: "snd (processPdfForLocalization sampleBuiltins
       (textPdf sixTexts (Parsed [recSubmit, recSubmitUpper])))
     = Inr (generateFlutterFiles (jsonOfAssignments sampleBuiltins) [recSubmit, recSubmitUpper])"
    by code_simp
  have t: "textService (textPdf sixTexts (Parsed [recSubmit, recSubmitUpper])) texts
             = Parsed [recSubmit, recSubmitUpper]" for texts
    by (simp add: textPdf_def)
  have l: "toLowerCase sampleBuiltins = lowerAscii"
    by (simp add: sampleBuiltins_def)
  have doc: "document (scannedPdf 8 mixedPages) = Inr ?pages"
    by (simp add: scannedPdf_def samplePage_def)
  have urls: "urls = replicate 8 ?url" if "map renderResult ?pages = map Inr urls" for urls
  proof -
    from that [symmetric]
    have "map (Inr :: jsstring \<Rightarrow> thrown + jsstring) urls = map Inr (replicate 8 ?url)"
      by simp
    then show ?thesis by (simp only: inj_map_eq_map [OF inj_Inr])
  qed
  have ev: "firstPerIdentity (uniqueKey lowerAscii) []
      (filter (\<lambda>r. uniqueKey lowerAscii r \<noteq> [])
         (concat (map (pageRecords (scannedPdf 8 mixedPages)
                          (foldl pushPart [] (replicate 8 ?url)))
                    [0 ..< length (foldl pushPart [] (replicate 8 ?url))])))
      = [recCancel, recSubmitUpper, recArabicOnly]"
    by code_simp
  from materialized_records [OF none ocr] obtain dat where
    d: "snd (localizationData sampleBuiltins (scannedPdf 8 mixedPages)) = Inr dat"
    and o: "length ([] :: jsstring list) \<le> 5 \<longrightarrow>
      (\<exists>pages urls imageParts.
          document (scannedPdf 8 mixedPages) = Inr pages \<and>
          map renderResult pages = map Inr urls \<and>
          imageParts = foldl pushPart [] urls \<and>
          dat = firstPerIdentity (uniqueKey (toLowerCase sampleBuiltins)) []
                  (filter (\<lambda>r. uniqueKey (toLowerCase sampleBuiltins) r \<noteq> [])
                     (concat (map (pageRecords (scannedPdf 8 mixedPages) imageParts)
                                [0 ..< length imageParts])))) \<and>
      distinct (map (uniqueKey (toLowerCase sampleBuiltins)) dat) \<and>
      (\<forall>r \<in> set dat. uniqueKey (toLowerCase sampleBuiltins) r \<noteq> [])"
    by blast
  from o obtain pages urls where
    p: "document (scannedPdf 8 mixedPages) = Inr pages" "map renderResult pages = map Inr urls"
    and dat: "dat = firstPerIdentity (uniqueKey lowerAscii) []
                  (filter (\<lambda>r. uniqueKey lowerAscii r \<noteq> [])
                     (concat (map (pageRecords (scannedPdf 8 mixedPages)
                                     (foldl pushPart [] urls))
                                [0 ..< length (foldl pushPart [] urls)])))"
    unfolding l by auto
  from p(1) doc have "pages = ?pages" by simp
  with p(2) have "urls = replicate 8 ?url" by (intro urls) simp
  with dat ev have "dat = [recCancel, recSubmitUpper, recArabicOnly]" by simp
  with d have a: "snd (localizationData sampleBuiltins (scannedPdf 8 mixedPages))
     = Inr [recCancel, recSubmitUpper, recArabicOnly]"
    by simp
  from materialized_records [OF six direct] t
  have b: "snd (localizationData sampleBuiltins
              (textPdf sixTexts (Parsed [recSubmit, recSubmitUpper])))
            = Inr [recSubmit, recSubmitUpper]"
    by auto
  from none ocr six direct a b show ?thesis by blast
qed

lemma localizationData_failure:
  "snd (localizationData B E) = Inl f \<Longrightarrow> snd (processPdfForLocalization B E) = Inl f"
  by (auto simp: processPdfForLocalization_def split: prod.splits sum.splits)

text \<open>
  On the direct-text path every failed call ends the run with an error: "API call
  failed..." when the value thrown passes the test of line 98, "An unknown error
  occurred..." otherwise.
\<close>

lemma direct_call_failure_aborts_run:
  assumes "extractTextFromPdf E = Inr texts" and "5 < length texts"
    and "aiClient E = None" and "textService E texts = CallFails e"
  shows "snd (processPdfForLocalization B E) =
           Inl (if textCritical e then ApiCallFailed else UnknownTranslationError)"
proof -
  from assms(3,4) have "snd (generateKeysAndTranslations E texts) =
      Inl (if textCritical e then ApiCallFailed else UnknownTranslationError)"
    by (simp add: generateKeysAndTranslations_def)
  with localizationData_events_direct(2) [OF assms(1,2), of B] show ?thesis
    by (intro localizationData_failure) simp
qed

text \<open>
  On the OCR path the failure of the request for one page image with an \<open>Error\<close>
  that passes the test of line 194, in whichever batch, ends the run with "API call
  failed...".
\<close>

lemma ocr_page_failure_aborts_run:
  assumes "extractTextFromPdf E = Inr texts" and "length texts \<le> 5"
    and "aiClient E = None"
    and "snd (convertPdfPagesToImageParts (toDouble B) E) = Inr parts"
    and "k < length parts"
    and "ocrService E k (data (parts ! k)) = CallFails e" and "ocrCritical e"
  shows "snd (processPdfForLocalization B E) = Inl ApiCallFailed"
proof -
  from assms(6,7) have page: "processPage E (parts ! k) k = Inl ApiCallFailed"
    by (simp add: processPage_def)
  have k: "0 \<le> k" "k < length parts" using assms(5) by simp_all
  have batches: "snd (ocrBatches (toDouble B) E parts 0 []) = Inl ApiCallFailed"
    by (rule ocrBatches_critical [OF k page])
  obtain evs where c: "convertPdfPagesToImageParts (toDouble B) E = (evs, Inr parts)"
    using assms(4) by (cases "convertPdfPagesToImageParts (toDouble B) E") simp
  obtain evs' where b: "ocrBatches (toDouble B) E parts 0 [] = (evs', Inl ApiCallFailed)"
    using batches by (cases "ocrBatches (toDouble B) E parts 0 []") simp
  from c b k assms(3) have "snd (generateLocalizationFromPdfImages B E) = Inl ApiCallFailed"
    by (auto simp: generateLocalizationFromPdfImages_def)
  with localizationData_events_ocr(2) [OF assms(1,2), of B]
  show ?thesis
    by (intro localizationData_failure) simp
qed


text \<open>
  C5: when the list of records that either path produces is empty, the run ends with
  the error "No localizable text was found in the PDF..." and returns no files.
\<close>

theorem empty_result_fails:
  assumes "snd (localizationData B E) = Inr []"
  shows "snd (processPdfForLocalization B E) = Inl NoLocalizableText"
  using assms by (auto simp: processPdfForLocalization_def split: prod.splits sum.splits)

theorem empty_result_fails_witness:
  "snd (localizationData sampleBuiltins (textPdf sixTexts (Parsed []))) = Inr [] \<and>
   snd (processPdfForLocalization sampleBuiltins (textPdf sixTexts (Parsed [])))
     = Inl NoLocalizableText \<and>
   snd (localizationData sampleBuiltins (scannedPdf 2 (\<lambda>i. Parsed [recBlank]))) = Inr [] \<and>
   snd (processPdfForLocalization sampleBuiltins (scannedPdf 2 (\<lambda>i. Parsed [recBlank])))
     = Inl NoLocalizableText"
proof -
  have direct: "snd (localizationData sampleBuiltins (textPdf sixTexts (Parsed []))) = Inr []"
    by code_simp
  have ocr: "snd (localizationData sampleBuiltins (scannedPdf 2 (\<lambda>i. Parsed [recBlank]))) = Inr []"
    by code_simp
  from empty_result_fails [OF direct] empty_result_fails [OF ocr] direct ocr
  show ?thesis by simp
qed

text \<open>
  When \<open>convertPdfPagesToImageParts\<close> returns its images, \<open>canvas.remove()\<close> is the
  last of its effects.
\<close>

lemma canvas_removed_on_success:
  assumes "convertPdfPagesToImageParts dbl E = (evs, Inr imageParts)"
  shows "evs \<noteq> [] \<and> last evs = CanvasRemoved"
  using assms
  by (auto simp: convertPdfPagesToImageParts_def split: if_splits sum.splits prod.splits)

text \<open>
  C9, on the input where the claim fails: the only page of the document fails to render.
  \<open>convertPdfPagesToImageParts\<close> creates the canvas, reports the page and ends with the
  rejection; \<open>canvas.remove()\<close> is not among its effects.
\<close>

theorem canvas_kept_on_render_failure:
  "convertPdfPagesToImageParts (\<lambda>x. x) brokenRenderPdf =
     ([CanvasCreated, Progress (ConvertingPage 1 1) 30],
      Inl (Rejected (ErrorObj (js ''render failed''))))"
  by code_simp

lemma processPdf_percentages:
  "percentages (fst (processPdfForLocalization B E)) = percentages (fst (localizationData B E)) \<or>
   percentages (fst (processPdfForLocalization B E)) =
     percentages (fst (localizationData B E)) @ [95]"
  using processPdf_events [of B E] by (auto simp: percentages_append)

text \<open>
  Every percentage reported within a run lies between 0 and 100, and a run that does
  not enter the OCR branch reports a non-decreasing sequence. In the OCR branch the
  page conversion, the batches, the consolidation and the construction of the files
  report a non-decreasing sequence among themselves.
\<close>

lemma progress_percentages:
  assumes "doubleRounding (toDouble B)"
  shows "(\<forall>p \<in> set (percentages (fst (processPdfForLocalization B E))). 0 \<le> p \<and> p \<le> 100) \<and>
         sorted (drop 2 (percentages (fst (processPdfForLocalization B E)))) \<and>
         ((\<forall>e \<in> set (fst (processPdfForLocalization B E)). \<not> ocrPathEvent e) \<longrightarrow>
            sorted (percentages (fst (processPdfForLocalization B E))))"
proof -
  let ?L = "percentages (fst (localizationData B E))"
  let ?P = "percentages (fst (processPdfForLocalization B E))"
  have sub: "set (fst (localizationData B E)) \<subseteq> set (fst (processPdfForLocalization B E))"
    using processPdf_events [of B E] by auto
  from localizationData_percentages [OF assms, of E]
  show ?thesis
  proof (elim disjE exE conjE)
    assume "?L \<in> {[5], [5, 50]}"
    with processPdf_percentages [of B E] show ?thesis by auto
  next
    fix rest
    assume L: "?L = 5 # 10 # rest" and s: "sorted rest"
      and b: "\<forall>p \<in> set rest. 0 \<le> p \<and> p \<le> 90"
      and o: "Progress StartingOcr 10 \<in> set (fst (localizationData B E))"
    from o sub have "\<not> (\<forall>e \<in> set (fst (processPdfForLocalization B E)). \<not> ocrPathEvent e)"
      by force
    moreover have "\<forall>p \<in> set rest. p \<le> 95 \<and> p \<le> 100" using b by fastforce
    ultimately show ?thesis
      using processPdf_percentages [of B E] L s b by (auto simp: sorted_append)
  qed
qed

text \<open>
  C6, on the input where the claim fails: a document of eight pages without a text
  layer. The run reports 5 for the extraction and 10 at the start of the OCR branch,
  and the page conversion then starts again at 4 for the first page: the reported
  percentages decrease, where every later step of the run raises them. A document of
  four pages goes from 10 to 8.
\<close>

theorem progress_decreases_on_scanned_document:
  "percentages (fst (processPdfForLocalization sampleBuiltins (scannedPdf 8 submitOnEveryPage)))
     = [5, 10, 4, 8, 11, 15, 19, 23, 26, 30, 30, 68, 90, 95] \<and>
   \<not> sorted (percentages
       (fst (processPdfForLocalization sampleBuiltins (scannedPdf 8 submitOnEveryPage)))) \<and>
   percentages (fst (processPdfForLocalization sampleBuiltins (scannedPdf 4 submitOnEveryPage)))
     = [5, 10, 8, 15, 23, 30, 30, 90, 95]"
  by code_simp

section \<open>Claims about the generated files\<close>

text \<open>
  C7: the third generated file is \<open>locale_keys.g.dart\<close>. Between the fixed opening of
  the class and its closing brace it consists of one line per key, "static const",
  the key, "=", the key in single quotes and a semicolon, and these lines stand in
  strictly ascending lexicographic order of the keys (by code units), every key of the
  input once, whatever the order of the records. Without records the body is one empty
  line.
\<close>

theorem locale_keys_sorted:
  "filename (generateFlutterFiles stringify dat ! 2) = js ''locale_keys.g.dart'' \<and>
   content (generateFlutterFiles stringify dat ! 2) =
     js ''// DO NOT EDIT. This is code generated via package:easy_localization/generate.dart''
     @ [0xA, 0xA] @ js ''abstract class  LocaleKeys {'' @ [0xA]
     @ (if dat = [] then [0xA]
        else concat (map (\<lambda>k. js ''  static const '' @ k @ js '' = '' @ [0x27] @ k @ [0x27]
                                @ js '';'' @ [0xA])
                       (sorted_list_of_set (key ` set dat))))
     @ [0xA] @ js ''}'' @ [0xA] \<and>
   sorted_wrt (<) (sorted_list_of_set (key ` set dat)) \<and>
   set (sorted_list_of_set (key ` set dat)) = key ` set dat"
proof -
  let ?ks = "sorted_list_of_set (key ` set dat)"
  have third: "generateFlutterFiles stringify dat ! 2 =
      \<lparr>filename = js ''locale_keys.g.dart'', content = localeKeysContent dat\<rparr>"
    by (simp add: generateFlutterFiles_def Let_def)
  have ks: "sortedKeys dat = ?ks" by (rule sortedKeys_canonical)
  have body: "join [0xA] (map keyLine ?ks) @ [0xA] =
      (if dat = [] then [0xA]
       else concat (map (\<lambda>k. js ''  static const '' @ k @ js '' = '' @ [0x27] @ k @ [0x27]
                               @ js '';'' @ [0xA]) ?ks))"
  proof (cases "dat = []")
    case True
    then show ?thesis by simp
  next
    case False
    then have "set ?ks \<noteq> {}" by simp
    then have "map keyLine ?ks \<noteq> []" by auto
    from join_terminated [OF this, of "[0xA]"] False show ?thesis
      by (simp add: keyLine_def comp_def)
  qed
  have "localeKeysContent dat =
     js ''// DO NOT EDIT. This is code generated via package:easy_localization/generate.dart''
     @ [0xA, 0xA] @ js ''abstract class  LocaleKeys {'' @ [0xA]
     @ (join [0xA] (map keyLine ?ks) @ [0xA]) @ [0xA] @ js ''}'' @ [0xA]"
    by (simp add: localeKeysContent_def ks)
  with third body show ?thesis
    using sortedKeys_strict [of dat] by (simp add: ks)
qed

text \<open>The file for the records of "Submit" and "Cancel", given in this order.\<close>

lemma locale_keys_sample:
  "content (generateFlutterFiles (jsonOfAssignments sampleBuiltins) [recSubmit, recCancel] ! 2) =
     js ''// DO NOT EDIT. This is code generated via package:easy_localization/generate.dart''
     @ [0xA, 0xA] @ js ''abstract class  LocaleKeys {'' @ [0xA]
     @ js ''  static const cancel = '' @ [0x27] @ js ''cancel'' @ [0x27] @ js '';'' @ [0xA]
     @ js ''  static const submit = '' @ [0x27] @ js ''submit'' @ [0x27] @ js '';'' @ [0xA]
     @ [0xA] @ js ''}'' @ [0xA]"
  by code_simp

end
